theory Spec2Isabelle
  imports Main "HOL-Library.AList"
begin

section \<open>JavaScript values and objects\<close>

text \<open>
  The store is generic in the values it holds; the only test the code ever makes on a
  value is \<^verbatim>\<open>=== undefined\<close>. A JavaScript value is therefore \<open>'v option\<close>, with
  \<open>None\<close> for \<^verbatim>\<open>undefined\<close> and \<open>Some v\<close> for every other (serialisable) value.

  A JavaScript object is the list of its own properties in enumeration order
  (\<^verbatim>\<open>Object.entries\<close>). A property may be present and hold \<^verbatim>\<open>undefined\<close>.
\<close>

type_synonym 'v jsval = "'v option"

type_synonym 'v obj = "(string \<times> 'v jsval) list"

text \<open>\<^verbatim>\<open>ob[k]\<close>: the value of the property, \<^verbatim>\<open>undefined\<close> when there is none.\<close>

definition obj_get :: "'v obj \<Rightarrow> string \<Rightarrow> 'v jsval" where
  "obj_get ob k = (case map_of ob k of None \<Rightarrow> None | Some v \<Rightarrow> v)"

text \<open>\<^verbatim>\<open>ob[k] = v\<close>: an existing property keeps its place, a new one goes last.\<close>

definition obj_put :: "string \<Rightarrow> 'v jsval \<Rightarrow> 'v obj \<Rightarrow> 'v obj" where
  "obj_put k v ob = AList.update k v ob"

text \<open>\<^verbatim>\<open>k in ob\<close>\<close>

definition obj_has :: "string \<Rightarrow> (string \<times> 'a) list \<Rightarrow> bool" where
  "obj_has k ob = (k \<in> fst ` set ob)"

text \<open>\<^verbatim>\<open>Object.keys(ob)\<close>\<close>

definition obj_keys :: "'v obj \<Rightarrow> string list" where
  "obj_keys ob = map fst ob"

section \<open>Errors\<close>

text \<open>
  \<open>MissingPassword\<close> is the \<^verbatim>\<open>Error(Security.MISSING_PASSWORD_ERROR_MESSAGE)\<close> thrown by
  \<^verbatim>\<open>createStore\<close>; \<open>HostError\<close> is a rejected \<^verbatim>\<open>chrome.storage\<close> promise;
  \<open>CryptoError\<close> is a rejected \<^verbatim>\<open>security.encrypt\<close>/\<^verbatim>\<open>security.decrypt\<close> promise.
\<close>

datatype error = MissingPassword | HostError | CryptoError

section \<open>The host: \<^verbatim>\<open>chrome.storage\<close>\<close>

datatype area = Sync | Local | Session | Managed

text \<open>The key argument of \<^verbatim>\<open>get\<close> and \<^verbatim>\<open>remove\<close>: one string or an array of strings.\<close>

datatype keyspec = Key string | Keys "string list"

fun keyspec_list :: "keyspec \<Rightarrow> string list" where
  "keyspec_list (Key k) = [k]"
| "keyspec_list (Keys ks) = ks"

text \<open>A call issued to a storage area, with its arguments.\<close>

datatype 'v hcall =
    HGet area keyspec
  | HSet area "'v obj"
  | HRemove area keyspec

text \<open>
  A function value is known by its identity. \<open>UserFn n\<close> is a function supplied by the
  caller. \<open>SubFn n sid key a enc cb\<close> is the closure \<^verbatim>\<open>sub\<close> allocated by the \<open>n\<close>-th
  closure allocation, together with the variables it captured: \<^verbatim>\<open>storeId\<close>,
  \<^verbatim>\<open>key\<close>, \<^verbatim>\<open>area\<close>, \<^verbatim>\<open>isEncrypted\<close> and \<^verbatim>\<open>callback\<close> (the identity of a caller's
  function).
\<close>

datatype fnref =
    UserFn nat
  | SubFn nat string string area bool nat

text \<open>
  The world outside the store: what each storage area holds (a stored value is never
  \<^verbatim>\<open>undefined\<close>), the calls issued so far, a script saying which of the coming host
  calls are rejected (\<open>True\<close>: rejected; past the end of the script every call succeeds),
  the listeners of \<^verbatim>\<open>chrome.storage.onChanged\<close>, and how many closures were allocated.
\<close>

record 'v world =
  storage :: "area \<Rightarrow> string \<Rightarrow> 'v option"
  calls :: "'v hcall list"
  faults :: "bool list"
  onChanged :: "fnref list"
  closures :: nat

definition rejected :: "'v world \<Rightarrow> bool" where
  "rejected w = (case faults w of [] \<Rightarrow> False | f # _ \<Rightarrow> f)"

definition issue :: "'v hcall \<Rightarrow> 'v world \<Rightarrow> 'v world" where
  "issue c w = w\<lparr>calls := calls w @ [c], faults := drop 1 (faults w)\<rparr>"

text \<open>The object a \<^verbatim>\<open>get\<close> resolves to: the requested keys that are stored.\<close>

definition read_keys :: "(string \<Rightarrow> 'v option) \<Rightarrow> string list \<Rightarrow> 'v obj" where
  "read_keys d ks = map (\<lambda>k. (k, d k)) (filter (\<lambda>k. d k \<noteq> None) (remdups ks))"

text \<open>
  What a \<^verbatim>\<open>set\<close> stores: every property with a value; a property holding
  \<^verbatim>\<open>undefined\<close> is dropped when the object is serialised, and its key is left as it was.
\<close>

fun write_obj :: "'v obj \<Rightarrow> (string \<Rightarrow> 'v option) \<Rightarrow> (string \<Rightarrow> 'v option)" where
  "write_obj [] d = d"
| "write_obj ((k, v) # ob) d = write_obj ob (case v of None \<Rightarrow> d | Some x \<Rightarrow> d(k \<mapsto> x))"

definition remove_keys :: "string list \<Rightarrow> (string \<Rightarrow> 'v option) \<Rightarrow> (string \<Rightarrow> 'v option)" where
  "remove_keys ks d = (\<lambda>k. if k \<in> set ks then None else d k)"

text \<open>\<^verbatim>\<open>chrome.storage[area].get(keys)\<close>\<close>

definition chrome_storage_get ::
  "area \<Rightarrow> keyspec \<Rightarrow> 'v world \<Rightarrow> (error + 'v obj) \<times> 'v world" where
  "chrome_storage_get a ks w =
     (if rejected w then (Inl HostError, issue (HGet a ks) w)
      else (Inr (read_keys (storage w a) (keyspec_list ks)), issue (HGet a ks) w))"

text \<open>\<^verbatim>\<open>chrome.storage[area].set(items)\<close>\<close>

definition chrome_storage_set ::
  "area \<Rightarrow> 'v obj \<Rightarrow> 'v world \<Rightarrow> (error + unit) \<times> 'v world" where
  "chrome_storage_set a ob w =
     (if rejected w then (Inl HostError, issue (HSet a ob) w)
      else (Inr (), (issue (HSet a ob) w)\<lparr>storage := (storage w)(a := write_obj ob (storage w a))\<rparr>))"

text \<open>\<^verbatim>\<open>chrome.storage[area].remove(keys)\<close>\<close>

definition chrome_storage_remove ::
  "area \<Rightarrow> keyspec \<Rightarrow> 'v world \<Rightarrow> (error + unit) \<times> 'v world" where
  "chrome_storage_remove a ks w =
     (if rejected w then (Inl HostError, issue (HRemove a ks) w)
      else (Inr (), (issue (HRemove a ks) w)
                      \<lparr>storage := (storage w)(a := remove_keys (keyspec_list ks) (storage w a))\<rparr>))"

section \<open>The encryption collaborator\<close>

text \<open>
  \<^verbatim>\<open>src/storage/Security\<close> is imported by the store and is not part of the sources at
  hand, so \<^verbatim>\<open>security.encrypt\<close> and \<^verbatim>\<open>security.decrypt\<close> are parameters. Either may
  reject. \<^verbatim>\<open>encrypt\<close> takes any value (the code also hands it \<^verbatim>\<open>undefined\<close>) and
  resolves to a ciphertext, which is a storable value; \<^verbatim>\<open>decrypt\<close> takes what was read
  from storage, which may be \<^verbatim>\<open>undefined\<close>, and resolves to a value.
\<close>

record 'v security =
  encrypt :: "'v jsval \<Rightarrow> error + 'v"
  decrypt :: "'v jsval \<Rightarrow> error + 'v jsval"

section \<open>\<^verbatim>\<open>createStore\<close>\<close>

text \<open>\<^verbatim>\<open>StoreOptions\<close>: the one option is itself optional.\<close>

record options =
  opt_isEncrypted :: "bool option"

text \<open>
  The store object together with the variables its methods close over. \<^verbatim>\<open>hasInitialized\<close>
  is the only one that is ever assigned after construction.
\<close>

record 'v store =
  storeId :: string
  options :: "options option"
  defaults :: "'v obj"
  area :: area
  isEncrypted :: bool
  hasInitialized :: bool

text \<open>\<^verbatim>\<open>const keys = Object.keys(defaults)\<close>\<close>

definition keys :: "'v store \<Rightarrow> string list" where
  "keys st = obj_keys (defaults st)"

text \<open>The template literal \<^verbatim>\<open>`${storeId}:${key}`\<close> at a string key.\<close>

definition actualKey :: "'v store \<Rightarrow> string \<Rightarrow> string" where
  "actualKey st key = storeId st @ '':'' @ key"

text \<open>\<^verbatim>\<open>const actualKeys = keys.map(key => `${storeId}:${key}`)\<close>\<close>

definition actualKeys :: "'v store \<Rightarrow> string list" where
  "actualKeys st = map (actualKey st) (keys st)"

text \<open>
  \<^verbatim>\<open>!process.env.EXTENSION_STORAGE_PASSWORD\<close>: the variable is unset or the empty string.
\<close>

definition falsy :: "string option \<Rightarrow> bool" where
  "falsy p = (case p of None \<Rightarrow> True | Some s \<Rightarrow> s = [])"

text \<open>
  \<^verbatim>\<open>createStore(storeId, defaults, area, options)\<close>, with the value of
  \<^verbatim>\<open>process.env.EXTENSION_STORAGE_PASSWORD\<close> as first argument. The world is passed
  through, as for every operation; the body makes no host call.
\<close>

definition createStore ::
  "string option \<Rightarrow> string \<Rightarrow> 'v obj \<Rightarrow> area \<Rightarrow> options option \<Rightarrow> 'v world
     \<Rightarrow> (error + 'v store) \<times> 'v world" where
  "createStore password sid defs ar opts w =
     (let enc = (case opts of None \<Rightarrow> False
                 | Some os \<Rightarrow> (case opt_isEncrypted os of None \<Rightarrow> False | Some b \<Rightarrow> b))
      in if enc \<and> falsy password then (Inl MissingPassword, w)
         else (Inr \<lparr>storeId = sid, options = opts, defaults = defs, area = ar,
                    isEncrypted = enc, hasInitialized = False\<rparr>, w))"

definition createLocalStore ::
  "string option \<Rightarrow> string \<Rightarrow> 'v obj \<Rightarrow> options option \<Rightarrow> 'v world
     \<Rightarrow> (error + 'v store) \<times> 'v world" where
  "createLocalStore password sid defs opts w = createStore password sid defs Local opts w"

definition createSyncStore ::
  "string option \<Rightarrow> string \<Rightarrow> 'v obj \<Rightarrow> options option \<Rightarrow> 'v world
     \<Rightarrow> (error + 'v store) \<times> 'v world" where
  "createSyncStore password sid defs opts w = createStore password sid defs Sync opts w"

definition createManagedStore ::
  "string option \<Rightarrow> string \<Rightarrow> 'v obj \<Rightarrow> options option \<Rightarrow> 'v world
     \<Rightarrow> (error + 'v store) \<times> 'v world" where
  "createManagedStore password sid defs opts w = createStore password sid defs Managed opts w"

definition createSessionStore ::
  "string option \<Rightarrow> string \<Rightarrow> 'v obj \<Rightarrow> options option \<Rightarrow> 'v world
     \<Rightarrow> (error + 'v store) \<times> 'v world" where
  "createSessionStore password sid defs opts w = createStore password sid defs Session opts w"

text \<open>
  The expression \<^verbatim>\<open>isEncrypted ? await security.encrypt(v) : v\<close> of \<^verbatim>\<open>initialize\<close> and
  \<^verbatim>\<open>set\<close>, and its mirror \<^verbatim>\<open>isEncrypted ? await security.decrypt(value) : value\<close> of
  \<^verbatim>\<open>get\<close>.
\<close>

definition encrypt_if :: "'v security \<Rightarrow> 'v store \<Rightarrow> 'v jsval \<Rightarrow> error + 'v jsval" where
  "encrypt_if sec st v =
     (if isEncrypted st then
        (case encrypt sec v of Inl e \<Rightarrow> Inl e | Inr c \<Rightarrow> Inr (Some c))
      else Inr v)"

definition decrypt_if :: "'v security \<Rightarrow> 'v store \<Rightarrow> 'v jsval \<Rightarrow> error + 'v jsval" where
  "decrypt_if sec st v = (if isEncrypted st then decrypt sec v else Inr v)"

section \<open>\<^verbatim>\<open>store.initialize\<close>\<close>

text \<open>
  The loop \<^verbatim>\<open>for (const key of missingKeys) defaultsToSet[key] = ...\<close>. The loop variable
  ranges over actual keys, and it is with the actual key that \<^verbatim>\<open>defaults\<close> is indexed.
\<close>

fun defaultsToSet ::
  "'v security \<Rightarrow> 'v store \<Rightarrow> string list \<Rightarrow> 'v obj \<Rightarrow> error + 'v obj" where
  "defaultsToSet sec st [] acc = Inr acc"
| "defaultsToSet sec st (key # rest) acc =
     (case encrypt_if sec st (obj_get (defaults st) key) of
        Inl e \<Rightarrow> Inl e
      | Inr v \<Rightarrow> defaultsToSet sec st rest (obj_put key v acc))"

definition store_initialize ::
  "'v security \<Rightarrow> 'v store \<Rightarrow> 'v world \<Rightarrow> (error + unit) \<times> 'v store \<times> 'v world" where
  "store_initialize sec st w =
     (case chrome_storage_get (area st) (Keys (actualKeys st)) w of
        (Inl e, w1) \<Rightarrow> (Inl e, st, w1)
      | (Inr data, w1) \<Rightarrow>
          (let missingKeys = filter (\<lambda>key. obj_get data key = None) (actualKeys st) in
           if missingKeys \<noteq> [] then
             (case defaultsToSet sec st missingKeys [] of
                Inl e \<Rightarrow> (Inl e, st, w1)
              | Inr ds \<Rightarrow>
                  (case chrome_storage_set (area st) ds w1 of
                     (Inl e, w2) \<Rightarrow> (Inl e, st, w2)
                   | (Inr u, w2) \<Rightarrow> (Inr (), st\<lparr>hasInitialized := True\<rparr>, w2)))
           else (Inr (), st\<lparr>hasInitialized := True\<rparr>, w1)))"

text \<open>The guard \<^verbatim>\<open>if (!hasInitialized) await store.initialize()\<close> that opens each accessor.\<close>

definition ensure_initialized ::
  "'v security \<Rightarrow> 'v store \<Rightarrow> 'v world \<Rightarrow> (error + unit) \<times> 'v store \<times> 'v world" where
  "ensure_initialized sec st w =
     (if \<not> hasInitialized st then store_initialize sec st w else (Inr (), st, w))"

section \<open>\<^verbatim>\<open>store.get\<close>\<close>

definition store_get ::
  "'v security \<Rightarrow> 'v store \<Rightarrow> string \<Rightarrow> 'v world \<Rightarrow> (error + 'v jsval) \<times> 'v store \<times> 'v world" where
  "store_get sec st key w =
     (case ensure_initialized sec st w of
        (Inl e, st1, w1) \<Rightarrow> (Inl e, st1, w1)
      | (Inr u, st1, w1) \<Rightarrow>
          (case chrome_storage_get (area st) (Key (actualKey st key)) w1 of
             (Inl e, w2) \<Rightarrow> (Inl e, st1, w2)
           | (Inr res, w2) \<Rightarrow>
               (let value = obj_get res (actualKey st key) in
                case decrypt_if sec st value of
                  Inl e \<Rightarrow> (Inl e, st1, w2)
                | Inr v \<Rightarrow> (Inr v, st1, w2))))"

section \<open>\<^verbatim>\<open>store.set\<close>\<close>

text \<open>
  The first argument of \<^verbatim>\<open>set\<close> is declared \<^verbatim>\<open>any\<close>: by the two overloads it is a
  key (a string) or an object of values.
\<close>

datatype 'v keyarg = KStr string | KObj "'v obj"

text \<open>\<^verbatim>\<open>typeof key === 'object'\<close>\<close>

fun typeof_object :: "'v keyarg \<Rightarrow> bool" where
  "typeof_object (KStr k) = False"
| "typeof_object (KObj ob) = True"

text \<open>\<^verbatim>\<open>`${key}`\<close>: a string is itself, an object prints as \<^verbatim>\<open>[object Object]\<close>.\<close>

fun template :: "'v keyarg \<Rightarrow> string" where
  "template (KStr k) = k"
| "template (KObj ob) = ''[object Object]''"

text \<open>\<^verbatim>\<open>Object.entries(key)\<close>, used on the object branch only.\<close>

fun object_entries :: "'v keyarg \<Rightarrow> 'v obj" where
  "object_entries (KStr k) = []"
| "object_entries (KObj ob) = ob"

text \<open>
  The loop over \<^verbatim>\<open>Object.entries(key)\<close>, carrying \<^verbatim>\<open>entriesToRemove\<close> and
  \<^verbatim>\<open>entriesToSet\<close>.
\<close>

fun bulk_entries ::
  "'v security \<Rightarrow> 'v store \<Rightarrow> 'v obj \<Rightarrow> string list \<Rightarrow> 'v obj \<Rightarrow> error + (string list \<times> 'v obj)" where
  "bulk_entries sec st [] entriesToRemove entriesToSet = Inr (entriesToRemove, entriesToSet)"
| "bulk_entries sec st ((k, v) # es) entriesToRemove entriesToSet =
     (case v of
        None \<Rightarrow> bulk_entries sec st es (entriesToRemove @ [actualKey st k]) entriesToSet
      | Some x \<Rightarrow>
          (case encrypt_if sec st (Some x) of
             Inl e \<Rightarrow> Inl e
           | Inr c \<Rightarrow> bulk_entries sec st es entriesToRemove
                       (obj_put (actualKey st k) c entriesToSet)))"

text \<open>The branch \<^verbatim>\<open>typeof key === 'object' && value === undefined\<close>, after the guard.\<close>

definition set_bulk ::
  "'v security \<Rightarrow> 'v store \<Rightarrow> 'v obj \<Rightarrow> 'v world \<Rightarrow> (error + unit) \<times> 'v world" where
  "set_bulk sec st entries w =
     (case bulk_entries sec st entries [] [] of
        Inl e \<Rightarrow> (Inl e, w)
      | Inr (entriesToRemove, entriesToSet) \<Rightarrow>
          (case (if length entriesToRemove > 0
                 then chrome_storage_remove (area st) (Keys entriesToRemove) w
                 else (Inr (), w)) of
             (Inl e, w1) \<Rightarrow> (Inl e, w1)
           | (Inr u, w1) \<Rightarrow>
               (if length (obj_keys entriesToSet) > 0
                then chrome_storage_set (area st) entriesToSet w1
                else (Inr (), w1))))"

text \<open>The rest of the body: \<^verbatim>\<open>key\<close> is taken for a string.\<close>

definition set_single ::
  "'v security \<Rightarrow> 'v store \<Rightarrow> string \<Rightarrow> 'v jsval \<Rightarrow> 'v world \<Rightarrow> (error + unit) \<times> 'v world" where
  "set_single sec st key val w =
     (case val of
        None \<Rightarrow> chrome_storage_remove (area st) (Key (actualKey st key)) w
      | Some x \<Rightarrow>
          (case encrypt_if sec st (Some x) of
             Inl e \<Rightarrow> (Inl e, w)
           | Inr c \<Rightarrow> chrome_storage_set (area st) [(actualKey st key, c)] w))"

definition store_set ::
  "'v security \<Rightarrow> 'v store \<Rightarrow> 'v keyarg \<Rightarrow> 'v jsval \<Rightarrow> 'v world
     \<Rightarrow> (error + unit) \<times> 'v store \<times> 'v world" where
  "store_set sec st key val w =
     (case ensure_initialized sec st w of
        (Inl e, st1, w1) \<Rightarrow> (Inl e, st1, w1)
      | (Inr u, st1, w1) \<Rightarrow>
          (if typeof_object key \<and> val = None then
             (case set_bulk sec st (object_entries key) w1 of (r, w2) \<Rightarrow> (r, st1, w2))
           else
             (case set_single sec st (template key) val w1 of (r, w2) \<Rightarrow> (r, st1, w2))))"

section \<open>\<^verbatim>\<open>store.all\<close>\<close>

text \<open>
  The callbacks of \<^verbatim>\<open>keys.map(async key => ...)\<close> each run up to their first
  \<^verbatim>\<open>await\<close> when \<^verbatim>\<open>map\<close> calls them, so every \<^verbatim>\<open>fullStore[actualKey]\<close> is read
  before any \<^verbatim>\<open>fullStore[key]\<close> is assigned. \<open>decrypt_keys\<close> is that first half: the
  decrypted value for each logical key, or the rejection. (Of several rejections
  \<^verbatim>\<open>Promise.all\<close> reports the earliest in time; the model reports the first in key
  order.) The assignments land on distinct properties, so their order does not change
  what each property holds.
\<close>

fun decrypt_keys ::
  "'v security \<Rightarrow> 'v store \<Rightarrow> 'v obj \<Rightarrow> string list \<Rightarrow> error + (string \<times> 'v jsval) list" where
  "decrypt_keys sec st fullStore [] = Inr []"
| "decrypt_keys sec st fullStore (key # rest) =
     (case decrypt sec (obj_get fullStore (actualKey st key)) of
        Inl e \<Rightarrow> Inl e
      | Inr v \<Rightarrow>
          (case decrypt_keys sec st fullStore rest of
             Inl e \<Rightarrow> Inl e
           | Inr vs \<Rightarrow> Inr ((key, v) # vs)))"

fun assign_all :: "(string \<times> 'v jsval) list \<Rightarrow> 'v obj \<Rightarrow> 'v obj" where
  "assign_all [] ob = ob"
| "assign_all ((k, v) # kvs) ob = assign_all kvs (obj_put k v ob)"

definition store_all ::
  "'v security \<Rightarrow> 'v store \<Rightarrow> 'v world \<Rightarrow> (error + 'v obj) \<times> 'v store \<times> 'v world" where
  "store_all sec st w =
     (case ensure_initialized sec st w of
        (Inl e, st1, w1) \<Rightarrow> (Inl e, st1, w1)
      | (Inr u, st1, w1) \<Rightarrow>
          (case chrome_storage_get (area st) (Keys (actualKeys st)) w1 of
             (Inl e, w2) \<Rightarrow> (Inl e, st1, w2)
           | (Inr fullStore, w2) \<Rightarrow>
               (if isEncrypted st then
                  (case decrypt_keys sec st fullStore (keys st) of
                     Inl e \<Rightarrow> (Inl e, st1, w2)
                   | Inr kvs \<Rightarrow> (Inr (assign_all kvs fullStore), st1, w2))
                else (Inr fullStore, st1, w2))))"

section \<open>\<^verbatim>\<open>store.keys\<close>\<close>

definition store_keys :: "'v store \<Rightarrow> string list" where
  "store_keys st = keys st"

section \<open>\<^verbatim>\<open>store.subscribe\<close> and \<^verbatim>\<open>store.unsubscribe\<close>\<close>

text \<open>\<^verbatim>\<open>{oldValue, newValue}\<close>, both as an entry of \<^verbatim>\<open>changes\<close> and as \<^verbatim>\<open>DataChange\<close>.\<close>

record 'v data_change =
  oldValue :: "'v jsval"
  newValue :: "'v jsval"

type_synonym 'v changes = "(string \<times> 'v data_change) list"

text \<open>
  What a listener does when it runs: \<open>Callback cb d\<close> is the call \<^verbatim>\<open>callback(d)\<close> of the
  caller's function \<open>cb\<close>; \<open>Listener n changes areaName\<close> is a caller's function that was
  itself registered on the event, called with the event.
\<close>

datatype 'v invocation =
    Callback nat "'v data_change"
  | Listener nat "'v changes" area

text \<open>
  The body of the closure \<^verbatim>\<open>sub\<close>, given the variables it captured. Of two rejected
  decryptions the model reports that of \<^verbatim>\<open>oldValue\<close>.
\<close>

definition sub ::
  "'v security \<Rightarrow> string \<Rightarrow> string \<Rightarrow> area \<Rightarrow> bool \<Rightarrow> nat \<Rightarrow> 'v changes \<Rightarrow> area
     \<Rightarrow> error + 'v invocation list" where
  "sub sec sid key a enc callback changes areaName =
     (if areaName \<noteq> a then Inr []
      else
        (case map_of changes (sid @ '':'' @ key) of
           None \<Rightarrow> Inr []
         | Some ch \<Rightarrow>
             (if \<not> enc then
                Inr [Callback callback \<lparr>oldValue = oldValue ch, newValue = newValue ch\<rparr>]
              else
                (case decrypt sec (oldValue ch) of
                   Inl e \<Rightarrow> Inl e
                 | Inr ov \<Rightarrow>
                     (case decrypt sec (newValue ch) of
                        Inl e \<Rightarrow> Inl e
                      | Inr nv \<Rightarrow> Inr [Callback callback \<lparr>oldValue = ov, newValue = nv\<rparr>])))))"

text \<open>\<^verbatim>\<open>chrome.storage.onChanged.addListener\<close> and \<^verbatim>\<open>removeListener\<close>\<close>

definition addListener :: "fnref \<Rightarrow> 'v world \<Rightarrow> 'v world" where
  "addListener f w = w\<lparr>onChanged := onChanged w @ [f]\<rparr>"

definition removeListener :: "fnref \<Rightarrow> 'v world \<Rightarrow> 'v world" where
  "removeListener f w = w\<lparr>onChanged := removeAll f (onChanged w)\<rparr>"

definition store_subscribe ::
  "'v store \<Rightarrow> string \<Rightarrow> nat \<Rightarrow> 'v world \<Rightarrow> fnref \<times> 'v world" where
  "store_subscribe st key callback w =
     (let s = SubFn (closures w) (storeId st) key (area st) (isEncrypted st) callback
      in (s, addListener s (w\<lparr>closures := Suc (closures w)\<rparr>)))"

definition store_unsubscribe :: "'v store \<Rightarrow> fnref \<Rightarrow> 'v world \<Rightarrow> 'v world" where
  "store_unsubscribe st s w = removeListener s w"

text \<open>The host delivering one change event: every registered listener is called with it.\<close>

fun run_listener ::
  "'v security \<Rightarrow> fnref \<Rightarrow> 'v changes \<Rightarrow> area \<Rightarrow> error + 'v invocation list" where
  "run_listener sec (SubFn n sid key a enc callback) changes areaName =
     sub sec sid key a enc callback changes areaName"
| "run_listener sec (UserFn n) changes areaName = Inr [Listener n changes areaName]"

definition fire ::
  "'v security \<Rightarrow> 'v world \<Rightarrow> 'v changes \<Rightarrow> area \<Rightarrow> (fnref \<times> (error + 'v invocation list)) list" where
  "fire sec w changes areaName =
     map (\<lambda>f. (f, run_listener sec f changes areaName)) (onChanged w)"

text \<open>
  \<^verbatim>\<open>store.use\<close> is a React hook: it composes \<^verbatim>\<open>get\<close>, \<^verbatim>\<open>subscribe\<close>, \<^verbatim>\<open>set\<close> and
  \<^verbatim>\<open>unsubscribe\<close> with \<^verbatim>\<open>useState\<close> and \<^verbatim>\<open>useEffect\<close>, and is not modelled. Its
  cleanup passes the caller's own function, not the handle, to \<^verbatim>\<open>unsubscribe\<close>.
\<close>

section \<open>Reading the call trace\<close>

text \<open>The storage area a host call addresses, and the keys it reads, writes or removes.\<close>

fun call_area :: "'v hcall \<Rightarrow> area" where
  "call_area (HGet a ks) = a"
| "call_area (HSet a ob) = a"
| "call_area (HRemove a ks) = a"

fun call_keys :: "'v hcall \<Rightarrow> string list" where
  "call_keys (HGet a ks) = keyspec_list ks"
| "call_keys (HSet a ob) = obj_keys ob"
| "call_keys (HRemove a ks) = keyspec_list ks"

text \<open>
  A call that stays inside the store: it addresses the store's area, and each of its keys
  is \<^verbatim>\<open>storeId + ":" + key\<close> for a key declared at construction.
\<close>

definition own_call :: "'v store \<Rightarrow> 'v hcall \<Rightarrow> bool" where
  "own_call st c =
     (call_area c = area st \<and>
      set (call_keys c) \<subseteq> (\<lambda>key. storeId st @ '':'' @ key) ` set (keys st))"

text \<open>The host calls issued between two worlds, the second reached from the first.\<close>

definition issued :: "'v world \<Rightarrow> 'v world \<Rightarrow> 'v hcall list" where
  "issued w w' = drop (length (calls w)) (calls w')"

text \<open>The actual keys of a store under which its storage area holds nothing.\<close>

definition absent_keys :: "'v store \<Rightarrow> 'v world \<Rightarrow> string list" where
  "absent_keys st w = filter (\<lambda>k. storage w (area st) k = None) (actualKeys st)"

text \<open>No coming host call is rejected.\<close>

definition fault_free :: "'v world \<Rightarrow> bool" where
  "fault_free w = (True \<notin> set (faults w))"

text \<open>
  The arguments the two overloads of \<^verbatim>\<open>set\<close> admit: a declared key with a value, or an
  object whose properties are declared keys, with no second argument.
\<close>

fun typed_set_args :: "'v store \<Rightarrow> 'v keyarg \<Rightarrow> 'v jsval \<Rightarrow> bool" where
  "typed_set_args st (KStr k) val = (k \<in> set (keys st))"
| "typed_set_args st (KObj ob) val = (val = None \<and> set (obj_keys ob) \<subseteq> set (keys st))"

section \<open>Example data\<close>

text \<open>
  Values for the examples: numbers, strings, and \<open>Sealed v\<close>, the ciphertext of \<open>v\<close>
  under a toy cipher that \<open>sealing\<close> implements.
\<close>

datatype jsv = Num int | Str string | Sealed "jsv option"

definition sealing :: "jsv security" where
  "sealing =
     \<lparr>encrypt = (\<lambda>v. Inr (Sealed v)),
      decrypt = (\<lambda>c. case c of
                        None \<Rightarrow> Inr None
                      | Some (Sealed v) \<Rightarrow> Inr v
                      | Some other \<Rightarrow> Inl CryptoError)\<rparr>"

text \<open>A host with nothing stored, no listener and no fault ahead.\<close>

definition world0 :: "jsv world" where
  "world0 = \<lparr>storage = (\<lambda>a k. None), calls = [], faults = [], onChanged = [], closures = 0\<rparr>"

definition prefs_defaults :: "jsv obj" where
  "prefs_defaults = [(''theme'', Some (Str ''light'')), (''volume'', Some (Num 50))]"

text \<open>The store that \<^verbatim>\<open>createLocalStore("prefs", {theme: "light", volume: 50})\<close> returns.\<close>

definition prefs_store :: "jsv store" where
  "prefs_store =
     \<lparr>storeId = ''prefs'', options = None, defaults = prefs_defaults, area = Local,
      isEncrypted = False, hasInitialized = False\<rparr>"

text \<open>The same store with encryption on.\<close>

definition sealed_store :: "jsv store" where
  "sealed_store =
     \<lparr>storeId = ''prefs'', options = Some \<lparr>opt_isEncrypted = Some True\<rparr>,
      defaults = prefs_defaults, area = Local, isEncrypted = True, hasInitialized = False\<rparr>"

text \<open>A host that already holds both keys of \<open>prefs_store\<close>.\<close>

definition world_seeded :: "jsv world" where
  "world_seeded =
     \<lparr>storage = (\<lambda>a. if a = Local
                      then [''prefs:theme'' \<mapsto> Str ''light'', ''prefs:volume'' \<mapsto> Num 50]
                      else Map.empty),
      calls = [], faults = [], onChanged = [], closures = 0\<rparr>"

section \<open>Facts about objects and the host\<close>

lemmas run_defs = createLocalStore_def createStore_def store_get_def store_set_def store_all_def
  ensure_initialized_def store_initialize_def chrome_storage_get_def chrome_storage_set_def
  chrome_storage_remove_def rejected_def issue_def read_keys_def remove_keys_def
  set_single_def set_bulk_def actualKeys_def actualKey_def keys_def obj_keys_def obj_get_def
  obj_put_def encrypt_if_def decrypt_if_def falsy_def

lemmas example_defs = world0_def world_seeded_def prefs_defaults_def prefs_store_def
  sealed_store_def sealing_def

lemma obj_get_read_keys: "obj_get (read_keys d ks) k = (if k \<in> set ks then d k else None)"
  by (auto simp: obj_get_def read_keys_def map_of_map_restrict restrict_map_def
           split: option.splits)

lemma write_obj_other: "k \<notin> fst ` set ob \<Longrightarrow> write_obj ob d k = d k"
  by (induction ob arbitrary: d) (auto split: option.splits)

lemma write_obj_all_undefined: "\<forall>p \<in> set ob. snd p = None \<Longrightarrow> write_obj ob d = d"
  by (induction ob arbitrary: d) auto

lemma write_obj_keeps: "d k \<noteq> None \<Longrightarrow> write_obj ob d k \<noteq> None"
  by (induction ob arbitrary: d) (auto split: option.splits)

lemma write_obj_defined: "(k, Some v) \<in> set ob \<Longrightarrow> write_obj ob d k \<noteq> None"
proof (induction ob arbitrary: d)
  case Nil
  then show ?case by simp
next
  case (Cons p ob)
  obtain k' v' where p: "p = (k', v')" by (cases p)
  show ?case
  proof (cases "p = (k, Some v)")
    case True
    then show ?thesis by (simp add: write_obj_keeps)
  next
    case False
    with Cons.prems have "(k, Some v) \<in> set ob" by simp
    then show ?thesis using Cons.IH by (simp add: p)
  qed
qed

lemma get_calls:
  "chrome_storage_get a ks w = (r, w') \<Longrightarrow>
     calls w' = calls w @ [HGet a ks] \<and> storage w' = storage w \<and>
     faults w' = drop 1 (faults w) \<and> onChanged w' = onChanged w \<and> closures w' = closures w"
  by (auto simp: chrome_storage_get_def issue_def split: if_splits)

lemma get_result:
  "chrome_storage_get a ks w = (r, w') \<Longrightarrow>
     r = (if rejected w then Inl HostError
          else Inr (read_keys (storage w a) (keyspec_list ks)))"
  by (auto simp: chrome_storage_get_def split: if_splits)

lemma set_calls:
  "chrome_storage_set a ob w = (r, w') \<Longrightarrow>
     calls w' = calls w @ [HSet a ob] \<and> faults w' = drop 1 (faults w) \<and>
     onChanged w' = onChanged w \<and> closures w' = closures w"
  by (auto simp: chrome_storage_set_def issue_def split: if_splits)

lemma set_result:
  "chrome_storage_set a ob w = (r, w') \<Longrightarrow>
     r = (if rejected w then Inl HostError else Inr ()) \<and>
     storage w' = (if rejected w then storage w
                   else (storage w)(a := write_obj ob (storage w a)))"
  by (auto simp: chrome_storage_set_def issue_def split: if_splits)

lemma remove_calls:
  "chrome_storage_remove a ks w = (r, w') \<Longrightarrow>
     calls w' = calls w @ [HRemove a ks] \<and> faults w' = drop 1 (faults w) \<and>
     onChanged w' = onChanged w \<and> closures w' = closures w"
  by (auto simp: chrome_storage_remove_def issue_def split: if_splits)

lemma remove_result:
  "chrome_storage_remove a ks w = (r, w') \<Longrightarrow>
     r = (if rejected w then Inl HostError else Inr ()) \<and>
     storage w' = (if rejected w then storage w
                   else (storage w)(a := remove_keys (keyspec_list ks) (storage w a)))"
  by (auto simp: chrome_storage_remove_def issue_def split: if_splits)

lemma sub_ignores:
  "areaName \<noteq> a \<or> \<not> obj_has (sid @ '':'' @ key) changes \<Longrightarrow>
   sub sec sid key a enc cb changes areaName = Inr []"
proof -
  assume h: "areaName \<noteq> a \<or> \<not> obj_has (sid @ '':'' @ key) changes"
  show ?thesis
  proof (cases "areaName \<noteq> a")
    case True
    then show ?thesis by (simp add: sub_def)
  next
    case False
    with h have "map_of changes (sid @ '':'' @ key) = None"
      by (simp add: obj_has_def map_of_eq_None_iff)
    then show ?thesis by (simp add: sub_def)
  qed
qed

lemma subscribe_handle:
  "store_subscribe st key cb w = (s, w') \<Longrightarrow>
     s = SubFn (closures w) (storeId st) key (area st) (isEncrypted st) cb \<and>
     onChanged w' = onChanged w @ [s]"
  by (auto simp: store_subscribe_def addListener_def Let_def)

section \<open>Facts about \<^verbatim>\<open>initialize\<close>\<close>

lemma defaultsToSet_keys:
  "defaultsToSet sec st ks acc = Inr ds \<Longrightarrow> fst ` set ds = fst ` set acc \<union> set ks"
  by (induction ks arbitrary: acc)
     (auto simp: obj_put_def dom_update split: sum.splits)

lemma set_update_cases:
  "(k, x) \<in> set (AList.update k' v al) \<Longrightarrow> (k, x) = (k', v) \<or> (k, x) \<in> set al"
  by (induction al) (auto split: if_splits)

lemma defaultsToSet_values:
  "defaultsToSet sec st ks acc = Inr ds \<Longrightarrow> (k, x) \<in> set ds \<Longrightarrow>
     (k, x) \<in> set acc \<or> (k \<in> set ks \<and> encrypt_if sec st (obj_get (defaults st) k) = Inr x)"
proof (induction ks arbitrary: acc)
  case Nil
  then show ?case by simp
next
  case (Cons key rest)
  from Cons.prems(1) obtain v where v: "encrypt_if sec st (obj_get (defaults st) key) = Inr v"
    and r: "defaultsToSet sec st rest (obj_put key v acc) = Inr ds"
    by (auto split: sum.splits)
  from Cons.IH[OF r Cons.prems(2)] show ?case
    using v by (auto simp: obj_put_def dest: set_update_cases)
qed

lemma missing_filter:
  "filter (\<lambda>key. obj_get (read_keys (storage w (area st)) (actualKeys st)) key = None)
          (actualKeys st) = absent_keys st w"
  unfolding absent_keys_def by (rule filter_cong) (simp_all add: obj_get_read_keys)

lemma store_initialize_unfold:
  "store_initialize sec st w =
     (if rejected w then (Inl HostError, st, issue (HGet (area st) (Keys (actualKeys st))) w)
      else if absent_keys st w = [] then
        (Inr (), st\<lparr>hasInitialized := True\<rparr>, issue (HGet (area st) (Keys (actualKeys st))) w)
      else
        (case defaultsToSet sec st (absent_keys st w) [] of
           Inl e \<Rightarrow> (Inl e, st, issue (HGet (area st) (Keys (actualKeys st))) w)
         | Inr ds \<Rightarrow>
             (if rejected (issue (HGet (area st) (Keys (actualKeys st))) w) then
                (Inl HostError, st,
                 issue (HSet (area st) ds) (issue (HGet (area st) (Keys (actualKeys st))) w))
              else
                (Inr (), st\<lparr>hasInitialized := True\<rparr>,
                 (issue (HSet (area st) ds) (issue (HGet (area st) (Keys (actualKeys st))) w))
                   \<lparr>storage := (storage w)(area st := write_obj ds (storage w (area st)))\<rparr>))))"
  by (simp add: store_initialize_def chrome_storage_get_def chrome_storage_set_def
                missing_filter Let_def issue_def split: sum.splits)


lemma actualKey_flag [simp]: "actualKey (st\<lparr>hasInitialized := b\<rparr>) = actualKey st"
  by (simp add: actualKey_def fun_eq_iff)

lemma keys_flag [simp]: "keys (st\<lparr>hasInitialized := b\<rparr>) = keys st"
  by (simp add: keys_def)

lemma actualKeys_flag [simp]: "actualKeys (st\<lparr>hasInitialized := b\<rparr>) = actualKeys st"
  by (simp add: actualKeys_def)

lemma absent_keys_flag [simp]: "absent_keys (st\<lparr>hasInitialized := b\<rparr>) w = absent_keys st w"
  by (simp add: absent_keys_def)

lemma encrypt_if_flag [simp]: "encrypt_if sec (st\<lparr>hasInitialized := b\<rparr>) = encrypt_if sec st"
  by (simp add: encrypt_if_def fun_eq_iff)

lemma decrypt_if_flag [simp]: "decrypt_if sec (st\<lparr>hasInitialized := b\<rparr>) = decrypt_if sec st"
  by (simp add: decrypt_if_def fun_eq_iff)

lemma defaultsToSet_flag [simp]:
  "defaultsToSet sec (st\<lparr>hasInitialized := b\<rparr>) ks acc = defaultsToSet sec st ks acc"
  by (induction ks arbitrary: acc) (simp_all split: sum.splits)

lemma issue_fields [simp]:
  "storage (issue c w) = storage w" "calls (issue c w) = calls w @ [c]"
  "onChanged (issue c w) = onChanged w" "closures (issue c w) = closures w"
  "faults (issue c w) = drop 1 (faults w)"
  by (simp_all add: issue_def)

lemma initialize_flag:
  "store_initialize sec st w = (r, st', w') \<Longrightarrow>
     st' = (if r = Inr () then st\<lparr>hasInitialized := True\<rparr> else st)"
  by (auto simp: store_initialize_unfold split: if_splits sum.splits)

lemma initialize_success:
  "store_initialize sec st w = (r, st', w') \<Longrightarrow>
     (r = Inr ()) =
       (\<not> rejected w \<and>
        (absent_keys st w \<noteq> [] \<longrightarrow>
           (\<exists>ds. defaultsToSet sec st (absent_keys st w) [] = Inr ds) \<and>
           \<not> rejected (issue (HGet (area st) (Keys (actualKeys st))) w)))"
  by (auto simp: store_initialize_unfold split: if_splits sum.splits)

lemma initialize_calls:
  "store_initialize sec st w = (r, st', w') \<Longrightarrow>
     calls w' = calls w @ [HGet (area st) (Keys (actualKeys st))] \<or>
     (\<exists>ds. defaultsToSet sec st (absent_keys st w) [] = Inr ds \<and> absent_keys st w \<noteq> [] \<and>
           calls w' = calls w @ [HGet (area st) (Keys (actualKeys st)), HSet (area st) ds])"
  by (auto simp: store_initialize_unfold split: if_splits sum.splits)

lemma initialize_storage:
  "store_initialize sec st w = (r, st', w') \<Longrightarrow>
     storage w' = storage w \<or>
     (\<exists>ds. defaultsToSet sec st (absent_keys st w) [] = Inr ds \<and> absent_keys st w \<noteq> [] \<and>
           r = Inr () \<and>
           storage w' = (storage w)(area st := write_obj ds (storage w (area st))))"
  by (auto simp: store_initialize_unfold split: if_splits sum.splits)

lemma initialize_storage_success:
  "store_initialize sec st w = (Inr (), st', w') \<Longrightarrow> absent_keys st w \<noteq> [] \<Longrightarrow>
     \<exists>ds. defaultsToSet sec st (absent_keys st w) [] = Inr ds \<and>
          storage w' = (storage w)(area st := write_obj ds (storage w (area st)))"
  by (auto simp: store_initialize_unfold split: if_splits sum.splits)

lemma set_absent_keys:
  "set (absent_keys st w) = {k \<in> set (actualKeys st). storage w (area st) k = None}"
  by (auto simp: absent_keys_def)

lemma seeded_keys:
  "defaultsToSet sec st (absent_keys st w) [] = Inr ds \<Longrightarrow>
     set (obj_keys ds) = {k \<in> set (actualKeys st). storage w (area st) k = None}"
  using defaultsToSet_keys[of sec st "absent_keys st w" "[]" ds]
  by (simp add: obj_keys_def set_absent_keys)

lemma initialize_preserves:
  assumes "store_initialize sec st w = (r, st', w')" and "storage w a k \<noteq> None"
  shows "storage w' a k = storage w a k"
proof -
  from initialize_storage[OF assms(1)] show ?thesis
  proof
    assume "storage w' = storage w"
    then show ?thesis by simp
  next
    assume "\<exists>ds. defaultsToSet sec st (absent_keys st w) [] = Inr ds \<and> absent_keys st w \<noteq> [] \<and>
           r = Inr () \<and>
           storage w' = (storage w)(area st := write_obj ds (storage w (area st)))"
    then obtain ds where ds: "defaultsToSet sec st (absent_keys st w) [] = Inr ds"
      and s: "storage w' = (storage w)(area st := write_obj ds (storage w (area st)))"
      by blast
    show ?thesis
    proof (cases "a = area st")
      case False
      then show ?thesis by (simp add: s)
    next
      case True
      have "k \<notin> fst ` set ds"
        using seeded_keys[OF ds] assms(2) True by (auto simp: obj_keys_def)
      then show ?thesis using True by (simp add: s write_obj_other)
    qed
  qed
qed

lemma second_pass_writes_nothing:
  assumes first: "store_initialize sec st w = (Inr (), st1, w1)"
    and ds1: "defaultsToSet sec st (absent_keys st w1) [] = Inr ds1"
  shows "\<forall>p \<in> set ds1. snd p = None"
proof
  fix p assume p: "p \<in> set ds1"
  obtain k x where kx: "p = (k, x)" by (cases p)
  from defaultsToSet_values[OF ds1] p kx
  have k1: "k \<in> set (absent_keys st w1)"
    and x: "encrypt_if sec st (obj_get (defaults st) k) = Inr x" by auto
  from k1 have kA: "k \<in> set (actualKeys st)" and none1: "storage w1 (area st) k = None"
    by (auto simp: set_absent_keys)
  have none0: "storage w (area st) k = None"
  proof (rule ccontr)
    assume "storage w (area st) k \<noteq> None"
    from initialize_preserves[OF first this] this none1 show False by simp
  qed
  with kA have k0: "k \<in> set (absent_keys st w)" by (simp add: set_absent_keys)
  then have ne: "absent_keys st w \<noteq> []" by auto
  from initialize_storage_success[OF first ne] obtain ds0
    where ds0: "defaultsToSet sec st (absent_keys st w) [] = Inr ds0"
      and s1: "storage w1 = (storage w)(area st := write_obj ds0 (storage w (area st)))"
    by blast
  from defaultsToSet_keys[OF ds0] k0 obtain y where y: "(k, y) \<in> set ds0" by force
  from defaultsToSet_values[OF ds0 y] x have "y = x" by simp
  show "snd p = None"
  proof (cases x)
    case None
    then show ?thesis by (simp add: kx)
  next
    case (Some v)
    with y \<open>y = x\<close> have "(k, Some v) \<in> set ds0" by simp
    from write_obj_defined[OF this, of "storage w (area st)"] none1
    show ?thesis by (simp add: s1)
  qed
qed

section \<open>Facts about the accessors\<close>

lemma ensure_initialized_done [simp]:
  "hasInitialized st \<Longrightarrow> ensure_initialized sec st w = (Inr (), st, w)"
  by (simp add: ensure_initialized_def)

lemma ensure_initialized_todo [simp]:
  "\<not> hasInitialized st \<Longrightarrow> ensure_initialized sec st w = store_initialize sec st w"
  by (simp add: ensure_initialized_def)

lemma ensure_initialized_flag:
  "ensure_initialized sec st w = (Inr u, st1, w1) \<Longrightarrow>
     hasInitialized st1 \<and> (st1 = st \<or> st1 = st\<lparr>hasInitialized := True\<rparr>)"
  by (cases "hasInitialized st") (auto dest: initialize_flag)

lemma own_call_all: "own_call st (HGet (area st) (Keys (actualKeys st)))"
  by (auto simp: own_call_def actualKeys_def actualKey_def)

lemma initialize_trace:
  assumes i: "store_initialize sec st w = (r, st', w')"
  shows "\<exists>cs. calls w' = calls w @ cs \<and> (\<forall>c \<in> set cs. own_call st c) \<and>
           take 1 cs = [HGet (area st) (Keys (actualKeys st))]"
proof -
  note g = own_call_all[of st]
  from initialize_calls[OF i] show ?thesis
  proof
    assume "calls w' = calls w @ [HGet (area st) (Keys (actualKeys st))]"
    with g show ?thesis by simp
  next
    assume "\<exists>ds. defaultsToSet sec st (absent_keys st w) [] = Inr ds \<and> absent_keys st w \<noteq> [] \<and>
           calls w' = calls w @ [HGet (area st) (Keys (actualKeys st)), HSet (area st) ds]"
    then obtain ds where ds: "defaultsToSet sec st (absent_keys st w) [] = Inr ds"
      and c: "calls w' = calls w @ [HGet (area st) (Keys (actualKeys st)), HSet (area st) ds]"
      by blast
    from seeded_keys[OF ds] have "own_call st (HSet (area st) ds)"
      by (auto simp: own_call_def actualKeys_def actualKey_def)
    with g c show ?thesis by simp
  qed
qed

lemma ensure_initialized_calls:
  "ensure_initialized sec st w = (r, st1, w1) \<Longrightarrow>
     \<exists>cs. calls w1 = calls w @ cs \<and> (\<forall>c \<in> set cs. own_call st c) \<and>
          (\<not> hasInitialized st \<longrightarrow> take 1 cs = [HGet (area st) (Keys (actualKeys st))])"
proof (cases "hasInitialized st")
  case True
  assume "ensure_initialized sec st w = (r, st1, w1)"
  with True show ?thesis by simp
next
  case False
  assume "ensure_initialized sec st w = (r, st1, w1)"
  with False have i: "store_initialize sec st w = (r, st1, w1)" by simp
  from initialize_trace[OF i] show ?thesis by blast
qed

lemma store_get_cases:
  assumes "store_get sec st key w = (r, st', w')"
  obtains (init_failed) e where "ensure_initialized sec st w = (Inl e, st', w')" "r = Inl e"
  | (ran) wi where "ensure_initialized sec st w = (Inr (), st', wi)"
      "calls w' = calls wi @ [HGet (area st) (Key (actualKey st key))]"
      "storage w' = storage wi" "faults w' = drop 1 (faults wi)"
      "r = (if rejected wi then Inl HostError
            else decrypt_if sec st (storage wi (area st) (actualKey st key)))"
proof -
  obtain ri sti wi where e: "ensure_initialized sec st w = (ri, sti, wi)"
    by (cases "ensure_initialized sec st w")
  show ?thesis
  proof (cases ri)
    case (Inl e')
    with assms e have "ensure_initialized sec st w = (Inl e', st', w')" "r = Inl e'"
      by (auto simp: store_get_def)
    then show ?thesis by (rule init_failed)
  next
    case (Inr u)
    obtain rg wg where g: "chrome_storage_get (area st) (Key (actualKey st key)) wi = (rg, wg)"
      by (cases "chrome_storage_get (area st) (Key (actualKey st key)) wi")
    from assms e Inr g have s: "st' = sti" and w: "w' = wg"
      by (auto simp: store_get_def Let_def split: sum.splits)
    from assms e Inr g get_result[OF g]
    have r: "r = (if rejected wi then Inl HostError
            else decrypt_if sec st (storage wi (area st) (actualKey st key)))"
      by (auto simp: store_get_def Let_def obj_get_read_keys split: sum.splits if_splits)
    from e Inr s have "ensure_initialized sec st w = (Inr (), st', wi)" by simp
    then show ?thesis using get_calls[OF g] r w by (intro ran) auto
  qed
qed

lemma store_all_cases:
  assumes "store_all sec st w = (r, st', w')"
  obtains (init_failed) e where "ensure_initialized sec st w = (Inl e, st', w')" "r = Inl e"
  | (ran) wi where "ensure_initialized sec st w = (Inr (), st', wi)"
      "calls w' = calls wi @ [HGet (area st) (Keys (actualKeys st))]"
      "storage w' = storage wi"
proof -
  obtain ri sti wi where e: "ensure_initialized sec st w = (ri, sti, wi)"
    by (cases "ensure_initialized sec st w")
  show ?thesis
  proof (cases ri)
    case (Inl e')
    with assms e have "ensure_initialized sec st w = (Inl e', st', w')" "r = Inl e'"
      by (auto simp: store_all_def)
    then show ?thesis by (rule init_failed)
  next
    case (Inr u)
    obtain rg wg where g: "chrome_storage_get (area st) (Keys (actualKeys st)) wi = (rg, wg)"
      by (cases "chrome_storage_get (area st) (Keys (actualKeys st)) wi")
    from assms e Inr g have s: "st' = sti" and w: "w' = wg"
      by (auto simp: store_all_def Let_def split: sum.splits if_splits)
    from e Inr s have "ensure_initialized sec st w = (Inr (), st', wi)" by simp
    then show ?thesis using get_calls[OF g] w by (intro ran) auto
  qed
qed

lemma encrypt_if_defined: "encrypt_if sec st (Some x) = Inr c \<Longrightarrow> c \<noteq> None"
  by (auto simp: encrypt_if_def split: if_splits sum.splits)

lemma remove_one: "remove_keys [k] d = d(k := None)"
  by (auto simp: remove_keys_def fun_eq_iff)

lemma set_single_cases:
  assumes "set_single sec st key val w = (r, w')"
  obtains (removed) "val = None"
      "calls w' = calls w @ [HRemove (area st) (Key (actualKey st key))]"
      "r = (if rejected w then Inl HostError else Inr ())"
      "storage w' = (if rejected w then storage w
                     else (storage w)(area st := (storage w (area st))(actualKey st key := None)))"
      "faults w' = drop 1 (faults w)"
  | (encrypt_failed) x e where "val = Some x" "encrypt_if sec st (Some x) = Inl e"
      "r = Inl e" "w' = w"
  | (written) x c where "val = Some x" "encrypt_if sec st (Some x) = Inr (Some c)"
      "calls w' = calls w @ [HSet (area st) [(actualKey st key, Some c)]]"
      "r = (if rejected w then Inl HostError else Inr ())"
      "storage w' = (if rejected w then storage w
                     else (storage w)(area st := (storage w (area st))(actualKey st key \<mapsto> c)))"
      "faults w' = drop 1 (faults w)"
proof (cases val)
  case None
  with assms have g: "chrome_storage_remove (area st) (Key (actualKey st key)) w = (r, w')"
    by (simp add: set_single_def)
  from remove_calls[OF g] remove_result[OF g] None show ?thesis
    by (intro removed) (auto simp: remove_one)
next
  case (Some x)
  show ?thesis
  proof (cases "encrypt_if sec st (Some x)")
    case (Inl e)
    with assms Some show ?thesis by (intro encrypt_failed) (auto simp: set_single_def)
  next
    case (Inr c')
    from encrypt_if_defined[OF Inr] obtain c where c: "c' = Some c" by auto
    with assms Some Inr
    have g: "chrome_storage_set (area st) [(actualKey st key, Some c)] w = (r, w')"
      by (simp add: set_single_def)
    from set_calls[OF g] set_result[OF g] Some Inr c show ?thesis
      by (intro written) auto
  qed
qed

lemma bulk_entries_remove:
  "bulk_entries sec st es rem sets = Inr (rem', sets') \<Longrightarrow>
     rem' = rem @ map (\<lambda>p. actualKey st (fst p)) (filter (\<lambda>p. snd p = None) es)"
proof (induction es arbitrary: rem sets)
  case Nil
  then show ?case by simp
next
  case (Cons p es)
  obtain k v where p: "p = (k, v)" by (cases p)
  show ?case
  proof (cases v)
    case None
    with Cons.prems p
    have "bulk_entries sec st es (rem @ [actualKey st k]) sets = Inr (rem', sets')" by simp
    from Cons.IH[OF this] show ?thesis using None p by simp
  next
    case (Some x)
    with Cons.prems p obtain c where "encrypt_if sec st (Some x) = Inr c"
      and "bulk_entries sec st es rem (obj_put (actualKey st k) c sets) = Inr (rem', sets')"
      by (auto split: sum.splits)
    from Cons.IH[OF this(2)] show ?thesis using Some p by simp
  qed
qed

lemma bulk_entries_set_keys:
  "bulk_entries sec st es rem sets = Inr (rem', sets') \<Longrightarrow>
     fst ` set sets' = fst ` set sets \<union> (\<lambda>p. actualKey st (fst p)) ` {p \<in> set es. snd p \<noteq> None}"
proof (induction es arbitrary: rem sets)
  case Nil
  then show ?case by simp
next
  case (Cons p es)
  obtain k v where p: "p = (k, v)" by (cases p)
  show ?case
  proof (cases v)
    case None
    with Cons.prems p
    have "bulk_entries sec st es (rem @ [actualKey st k]) sets = Inr (rem', sets')" by simp
    from Cons.IH[OF this] show ?thesis using None p by auto
  next
    case (Some x)
    with Cons.prems p obtain c where "encrypt_if sec st (Some x) = Inr c"
      and "bulk_entries sec st es rem (obj_put (actualKey st k) c sets) = Inr (rem', sets')"
      by (auto split: sum.splits)
    from Cons.IH[OF this(2)]
    have "fst ` set sets' = insert (actualKey st k) (fst ` set sets) \<union>
            (\<lambda>p. actualKey st (fst p)) ` {p \<in> set es. snd p \<noteq> None}"
      by (simp add: obj_put_def dom_update)
    moreover have "{q \<in> set (p # es). snd q \<noteq> None} = insert p {q \<in> set es. snd q \<noteq> None}"
      using Some p by auto
    ultimately show ?thesis using p by simp
  qed
qed


lemma set_bulk_cases:
  assumes "set_bulk sec st es w = (r, w')"
  obtains (encrypt_failed) e where "bulk_entries sec st es [] [] = Inl e" "r = Inl e" "w' = w"
  | (ran) rem sets n where "bulk_entries sec st es [] [] = Inr (rem, sets)"
      "calls w' = calls w @
         take n ((if rem \<noteq> [] then [HRemove (area st) (Keys rem)] else []) @
                 (if sets \<noteq> [] then [HSet (area st) sets] else []))"
      "r = Inr () \<Longrightarrow>
         calls w' = calls w @
           (if rem \<noteq> [] then [HRemove (area st) (Keys rem)] else []) @
           (if sets \<noteq> [] then [HSet (area st) sets] else [])"
proof (cases "bulk_entries sec st es [] []")
  case (Inl e)
  with assms show ?thesis by (intro encrypt_failed) (auto simp: set_bulk_def)
next
  case (Inr p)
  obtain rem sets where p: "p = (rem, sets)" by (cases p)
  let ?R = "HRemove (area st) (Keys rem)" and ?S = "HSet (area st) sets"
  obtain r1 w1 where rm: "(if length rem > 0 then chrome_storage_remove (area st) (Keys rem) w
                           else (Inr (), w)) = (r1, w1)"
    by (cases "if length rem > 0 then chrome_storage_remove (area st) (Keys rem) w else (Inr (), w)")
  have c1: "calls w1 = calls w @ (if rem \<noteq> [] then [?R] else [])"
    using rm by (auto split: if_splits dest: remove_calls)
  show ?thesis
  proof (cases r1)
    case (Inl e)
    with assms Inr p rm have "w' = w1" "r = Inl e"
      by (auto simp: set_bulk_def)
    then have "calls w' = calls w @ take 1 ((if rem \<noteq> [] then [?R] else []) @
                 (if sets \<noteq> [] then [?S] else []))"
      using c1 rm Inl by (auto split: if_splits)
    with Inr p \<open>r = Inl e\<close> show ?thesis by (intro ran[of rem sets 1]) auto
  next
    case (Inr u)
    with assms \<open>bulk_entries sec st es [] [] = Inr p\<close> p rm
    have st: "(if length (obj_keys sets) > 0 then chrome_storage_set (area st) sets w1
               else (Inr (), w1)) = (r, w')"
      by (auto simp: set_bulk_def)
    have "calls w' = calls w1 @ (if sets \<noteq> [] then [?S] else [])"
      using st by (auto simp: obj_keys_def split: if_splits dest: set_calls)
    with c1 have "calls w' = calls w @ (if rem \<noteq> [] then [?R] else []) @
                 (if sets \<noteq> [] then [?S] else [])" by simp
    with \<open>bulk_entries sec st es [] [] = Inr p\<close> p show ?thesis
      by (intro ran[of rem sets 2]) auto
  qed
qed

lemma store_set_cases:
  assumes "store_set sec st key val w = (r, st', w')"
  obtains (init_failed) e where "ensure_initialized sec st w = (Inl e, st', w')" "r = Inl e"
  | (bulk) wi where "ensure_initialized sec st w = (Inr (), st', wi)"
      "typeof_object key" "val = None" "set_bulk sec st (object_entries key) wi = (r, w')"
  | (single) wi where "ensure_initialized sec st w = (Inr (), st', wi)"
      "\<not> (typeof_object key \<and> val = None)" "set_single sec st (template key) val wi = (r, w')"
proof -
  obtain ri sti wi where e: "ensure_initialized sec st w = (ri, sti, wi)"
    by (cases "ensure_initialized sec st w")
  show ?thesis
  proof (cases ri)
    case (Inl e')
    with assms e have "ensure_initialized sec st w = (Inl e', st', w')" "r = Inl e'"
      by (auto simp: store_set_def)
    then show ?thesis by (rule init_failed)
  next
    case (Inr u)
    show ?thesis
    proof (cases "typeof_object key \<and> val = None")
      case True
      with assms e Inr have "ensure_initialized sec st w = (Inr (), st', wi)"
        and "set_bulk sec st (object_entries key) wi = (r, w')"
        by (auto simp: store_set_def split: prod.splits)
      with True show ?thesis by (intro bulk) auto
    next
      case False
      with assms e Inr have "ensure_initialized sec st w = (Inr (), st', wi)"
        and "set_single sec st (template key) val wi = (r, w')"
        by (auto simp: store_set_def split: prod.splits)
      with False show ?thesis by (intro single) auto
    qed
  qed
qed

lemma own_call_key:
  "key \<in> set (keys st) \<Longrightarrow> own_call st (HGet (area st) (Key (actualKey st key)))"
  "key \<in> set (keys st) \<Longrightarrow> own_call st (HRemove (area st) (Key (actualKey st key)))"
  "key \<in> set (keys st) \<Longrightarrow> own_call st (HSet (area st) [(actualKey st key, v)])"
  by (auto simp: own_call_def actualKey_def obj_keys_def)

lemma store_get_trace:
  assumes "store_get sec st key w = (r, st', w')"
  shows "\<exists>cs. calls w' = calls w @ cs \<and>
           (\<not> hasInitialized st \<longrightarrow> take 1 cs = [HGet (area st) (Keys (actualKeys st))]) \<and>
           (key \<in> set (keys st) \<longrightarrow> (\<forall>c \<in> set cs. own_call st c))"
  using assms
proof (cases rule: store_get_cases)
  case (init_failed e)
  from ensure_initialized_calls[OF init_failed(1)] show ?thesis by blast
next
  case (ran wi)
  from ensure_initialized_calls[OF ran(1)] obtain cs where cs: "calls wi = calls w @ cs"
    "\<forall>c \<in> set cs. own_call st c"
    "\<not> hasInitialized st \<longrightarrow> take 1 cs = [HGet (area st) (Keys (actualKeys st))]"
    by blast
  let ?cs = "cs @ [HGet (area st) (Key (actualKey st key))]"
  have "calls w' = calls w @ ?cs" using ran(2) cs(1) by simp
  moreover have "\<not> hasInitialized st \<longrightarrow> take 1 ?cs = [HGet (area st) (Keys (actualKeys st))]"
    using cs(3) by (cases cs) auto
  moreover have "key \<in> set (keys st) \<longrightarrow> (\<forall>c \<in> set ?cs. own_call st c)"
    using cs(2) by (auto simp: own_call_key)
  ultimately show ?thesis by blast
qed

lemma store_all_trace:
  assumes "store_all sec st w = (r, st', w')"
  shows "\<exists>cs. calls w' = calls w @ cs \<and>
           (\<not> hasInitialized st \<longrightarrow> take 1 cs = [HGet (area st) (Keys (actualKeys st))]) \<and>
           (\<forall>c \<in> set cs. own_call st c)"
  using assms
proof (cases rule: store_all_cases)
  case (init_failed e)
  from ensure_initialized_calls[OF init_failed(1)] show ?thesis by blast
next
  case (ran wi)
  from ensure_initialized_calls[OF ran(1)] obtain cs where cs: "calls wi = calls w @ cs"
    "\<forall>c \<in> set cs. own_call st c"
    "\<not> hasInitialized st \<longrightarrow> take 1 cs = [HGet (area st) (Keys (actualKeys st))]"
    by blast
  let ?cs = "cs @ [HGet (area st) (Keys (actualKeys st))]"
  have "calls w' = calls w @ ?cs" using ran(2) cs(1) by simp
  moreover have "\<not> hasInitialized st \<longrightarrow> take 1 ?cs = [HGet (area st) (Keys (actualKeys st))]"
    using cs(3) by (cases cs) auto
  moreover have "\<forall>c \<in> set ?cs. own_call st c"
    using cs(2) by (auto simp: own_call_all)
  ultimately show ?thesis by blast
qed

lemma set_single_trace:
  assumes "set_single sec st key val w = (r, w')"
  shows "\<exists>cs. calls w' = calls w @ cs \<and>
           (key \<in> set (keys st) \<longrightarrow> (\<forall>c \<in> set cs. own_call st c))"
  using assms
proof (cases rule: set_single_cases)
  case removed
  then show ?thesis by (auto simp: own_call_key)
next
  case (encrypt_failed x e)
  then show ?thesis by simp
next
  case (written x c)
  then show ?thesis by (auto simp: own_call_key)
qed

lemma set_bulk_trace:
  assumes "set_bulk sec st es w = (r, w')"
  shows "\<exists>cs. calls w' = calls w @ cs \<and>
           (set (obj_keys es) \<subseteq> set (keys st) \<longrightarrow> (\<forall>c \<in> set cs. own_call st c))"
  using assms
proof (cases rule: set_bulk_cases)
  case (encrypt_failed e)
  then show ?thesis by simp
next
  case (ran rem sets n)
  let ?plan = "(if rem \<noteq> [] then [HRemove (area st) (Keys rem)] else []) @
               (if sets \<noteq> [] then [HSet (area st) sets] else [])"
  have "\<forall>c \<in> set ?plan. own_call st c" if sub: "set (obj_keys es) \<subseteq> set (keys st)"
  proof -
    have r: "set rem \<subseteq> (\<lambda>key. storeId st @ '':'' @ key) ` set (keys st)"
      using bulk_entries_remove[OF ran(1)] sub by (auto simp: obj_keys_def actualKey_def)
    have s: "fst ` set sets \<subseteq> (\<lambda>key. storeId st @ '':'' @ key) ` set (keys st)"
      using bulk_entries_set_keys[OF ran(1)] sub by (auto simp: obj_keys_def actualKey_def)
    from r s show ?thesis by (auto simp: own_call_def obj_keys_def)
  qed
  then have "set (obj_keys es) \<subseteq> set (keys st) \<longrightarrow> (\<forall>c \<in> set (take n ?plan). own_call st c)"
    by (meson in_set_takeD)
  with ran(2) show ?thesis by blast
qed

lemma store_set_trace:
  assumes "store_set sec st key val w = (r, st', w')"
  shows "\<exists>cs. calls w' = calls w @ cs \<and>
           (\<not> hasInitialized st \<longrightarrow> take 1 cs = [HGet (area st) (Keys (actualKeys st))]) \<and>
           (typed_set_args st key val \<longrightarrow> (\<forall>c \<in> set cs. own_call st c))"
proof -
  have glue: "\<exists>cs. calls w' = calls w @ cs \<and>
           (\<not> hasInitialized st \<longrightarrow> take 1 cs = [HGet (area st) (Keys (actualKeys st))]) \<and>
           (P \<longrightarrow> (\<forall>c \<in> set cs. own_call st c))"
    if e: "ensure_initialized sec st w = (Inr (), st', wi)"
      and t: "\<exists>cs. calls w' = calls wi @ cs \<and> (P \<longrightarrow> (\<forall>c \<in> set cs. own_call st c))"
    for wi P
  proof -
    from ensure_initialized_calls[OF e] obtain cs where cs: "calls wi = calls w @ cs"
      "\<forall>c \<in> set cs. own_call st c"
      "\<not> hasInitialized st \<longrightarrow> take 1 cs = [HGet (area st) (Keys (actualKeys st))]"
      by blast
    from t obtain cs' where cs': "calls w' = calls wi @ cs'"
      "P \<longrightarrow> (\<forall>c \<in> set cs'. own_call st c)" by blast
    have "calls w' = calls w @ (cs @ cs')" using cs(1) cs'(1) by simp
    moreover have "\<not> hasInitialized st \<longrightarrow>
                     take 1 (cs @ cs') = [HGet (area st) (Keys (actualKeys st))]"
      using cs(3) by (cases cs) auto
    moreover have "P \<longrightarrow> (\<forall>c \<in> set (cs @ cs'). own_call st c)"
      using cs(2) cs'(2) by auto
    ultimately show ?thesis by blast
  qed
  from assms show ?thesis
  proof (cases rule: store_set_cases)
    case (init_failed e)
    from ensure_initialized_calls[OF init_failed(1)] show ?thesis by blast
  next
    case (bulk wi)
    have "typed_set_args st key val \<longrightarrow> set (obj_keys (object_entries key)) \<subseteq> set (keys st)"
      using bulk(2) by (cases key) auto
    with set_bulk_trace[OF bulk(4)]
    have "\<exists>cs. calls w' = calls wi @ cs \<and>
            (typed_set_args st key val \<longrightarrow> (\<forall>c \<in> set cs. own_call st c))" by blast
    from glue[OF bulk(1) this] show ?thesis .
  next
    case (single wi)
    have "typed_set_args st key val \<longrightarrow> template key \<in> set (keys st)"
      using single(2) by (cases key) auto
    with set_single_trace[OF single(3)]
    have "\<exists>cs. calls w' = calls wi @ cs \<and>
            (typed_set_args st key val \<longrightarrow> (\<forall>c \<in> set cs. own_call st c))" by blast
    from glue[OF single(1) this] show ?thesis .
  qed
qed

lemma issued_append: "calls w' = calls w @ cs \<Longrightarrow> issued w w' = cs"
  by (simp add: issued_def)

lemma first_call_get:
  "\<not> hasInitialized st \<Longrightarrow>
     take 1 (issued w (snd (snd (store_get sec st key w)))) = [HGet (area st) (Keys (actualKeys st))]"
proof -
  assume n: "\<not> hasInitialized st"
  obtain r st' w' where g: "store_get sec st key w = (r, st', w')"
    by (cases "store_get sec st key w")
  from store_get_trace[OF g] n show ?thesis by (auto simp: g dest: issued_append)
qed

lemma first_call_set:
  "\<not> hasInitialized st \<Longrightarrow>
     take 1 (issued w (snd (snd (store_set sec st karg val w))))
       = [HGet (area st) (Keys (actualKeys st))]"
proof -
  assume n: "\<not> hasInitialized st"
  obtain r st' w' where g: "store_set sec st karg val w = (r, st', w')"
    by (cases "store_set sec st karg val w")
  from store_set_trace[OF g] n show ?thesis by (auto simp: g dest: issued_append)
qed

lemma first_call_all:
  "\<not> hasInitialized st \<Longrightarrow>
     take 1 (issued w (snd (snd (store_all sec st w)))) = [HGet (area st) (Keys (actualKeys st))]"
proof -
  assume n: "\<not> hasInitialized st"
  obtain r st' w' where g: "store_all sec st w = (r, st', w')"
    by (cases "store_all sec st w")
  from store_all_trace[OF g] n show ?thesis by (auto simp: g dest: issued_append)
qed

lemma fault_free_not_rejected: "fault_free w \<Longrightarrow> \<not> rejected w"
  by (cases "faults w") (auto simp: fault_free_def rejected_def)

lemma fault_free_issue: "fault_free w \<Longrightarrow> fault_free (issue c w)"
  by (auto simp: fault_free_def dest: in_set_dropD)

lemma fault_free_faults: "faults w' = drop n (faults w) \<Longrightarrow> fault_free w \<Longrightarrow> fault_free w'"
  by (auto simp: fault_free_def dest: in_set_dropD)

lemma fault_free_storage [simp]: "fault_free (w\<lparr>storage := s\<rparr>) = fault_free w"
  by (simp add: fault_free_def)

lemma defaultsToSet_total:
  "\<forall>v. \<exists>c. encrypt_if sec st v = Inr c \<Longrightarrow> \<exists>ds. defaultsToSet sec st ks acc = Inr ds"
proof (induction ks arbitrary: acc)
  case Nil
  then show ?case by simp
next
  case (Cons key rest)
  from Cons.prems obtain c where "encrypt_if sec st (obj_get (defaults st) key) = Inr c"
    by blast
  with Cons.IH[OF Cons.prems, of "obj_put key c acc"] show ?case by simp
qed

lemma initialize_fault_free:
  assumes "store_initialize sec st w = (r, st', w')" and "fault_free w"
  shows "fault_free w'"
  using assms
  by (auto simp: store_initialize_unfold fault_free_issue split: if_splits sum.splits)

lemma ensure_initialized_total:
  assumes ff: "fault_free w" and enc: "\<forall>v. \<exists>c. encrypt_if sec st v = Inr c"
  shows "\<exists>st1 w1. ensure_initialized sec st w = (Inr (), st1, w1) \<and> fault_free w1"
proof (cases "hasInitialized st")
  case True
  with ff show ?thesis by simp
next
  case False
  obtain r st1 w1 where i: "store_initialize sec st w = (r, st1, w1)"
    by (cases "store_initialize sec st w")
  have "r = Inr ()"
    using initialize_success[OF i] defaultsToSet_total[OF enc]
          fault_free_not_rejected[OF ff] fault_free_not_rejected[OF fault_free_issue[OF ff]]
    by blast
  with i initialize_fault_free[OF i ff] False show ?thesis by simp
qed


section \<open>The claims\<close>

text \<open>
  C1. \<^verbatim>\<open>all()\<close> is specified to return a map from the logical key names to the decoded
  values: for the unencrypted store \<^verbatim>\<open>prefs\<close> with defaults
  \<^verbatim>\<open>{theme: "light", volume: 50}\<close> on an empty host, \<^verbatim>\<open>get("theme")\<close>,
  \<^verbatim>\<open>set("theme", "dark")\<close>, \<^verbatim>\<open>all()\<close> should end in \<^verbatim>\<open>{theme: "dark", volume: 50}\<close>.
  The code does otherwise. \<^verbatim>\<open>initialize\<close> looks the defaults up under the actual key, so
  nothing is seeded and \<^verbatim>\<open>get("theme")\<close> is \<^verbatim>\<open>undefined\<close>; and \<^verbatim>\<open>all()\<close> hands back
  the host's object, whose only key is the actual key \<^verbatim>\<open>prefs:theme\<close>. On a host that
  already holds both values, \<^verbatim>\<open>all()\<close> after the same \<^verbatim>\<open>set\<close> is
  \<^verbatim>\<open>{"prefs:theme": "dark", "prefs:volume": 50}\<close>: the values are right and the keys
  are the actual keys.
\<close>

theorem all_keeps_actual_keys:
  "createLocalStore None ''prefs'' prefs_defaults None world0 = (Inr prefs_store, world0)
   \<and> (case store_get sec prefs_store ''theme'' world0 of (r1, st1, w1) \<Rightarrow>
        (case store_set sec st1 (KStr ''theme'') (Some (Str ''dark'')) w1 of (r2, st2, w2) \<Rightarrow>
          (r1, r2, fst (store_all sec st2 w2))))
       = (Inr None, Inr (), Inr [(''prefs:theme'', Some (Str ''dark''))])
   \<and> (case store_set sec prefs_store (KStr ''theme'') (Some (Str ''dark'')) world_seeded of
         (r2, st2, w2) \<Rightarrow> (r2, fst (store_all sec st2 w2)))
       = (Inr (), Inr [(''prefs:theme'', Some (Str ''dark'')), (''prefs:volume'', Some (Num 50))])"
  by (simp add: run_defs example_defs)

text \<open>
  C5. Construction never touches the host: the world comes back as it was, call trace
  included. When encryption is requested and the secret is missing (unset or empty),
  construction fails with the missing-password error and yields no store; in every other
  case it yields a store, not yet initialised.
\<close>

theorem createStore_no_host_access:
  "snd (createStore password sid defs ar opts w) = w \<and>
   ((\<exists>os. opts = Some os \<and> opt_isEncrypted os = Some True) \<and> falsy password \<longrightarrow>
      createStore password sid defs ar opts w = (Inl MissingPassword, w)) \<and>
   (\<not> ((\<exists>os. opts = Some os \<and> opt_isEncrypted os = Some True) \<and> falsy password) \<longrightarrow>
      (\<exists>st. createStore password sid defs ar opts w = (Inr st, w) \<and> \<not> hasInitialized st))"
  by (auto simp: createStore_def Let_def split: option.splits)

theorem createStore_no_host_access_witness:
  "falsy None \<and>
   createStore None ''prefs'' prefs_defaults Local (Some \<lparr>opt_isEncrypted = Some True\<rparr>) world0
     = (Inl MissingPassword, world0) \<and>
   \<not> falsy (Some ''secret'') \<and>
   (\<exists>st. createStore (Some ''secret'') ''prefs'' prefs_defaults Local
            (Some \<lparr>opt_isEncrypted = Some True\<rparr>) world0 = (Inr st, world0))"
  using createStore_no_host_access
          [of None "''prefs''" prefs_defaults Local "Some \<lparr>opt_isEncrypted = Some True\<rparr>" world0]
        createStore_no_host_access
          [of "Some ''secret''" "''prefs''" prefs_defaults Local
              "Some \<lparr>opt_isEncrypted = Some True\<rparr>" world0]
  by (auto simp: falsy_def)

text \<open>
  C6. The listener that \<^verbatim>\<open>subscribe(key, callback)\<close> registers does nothing on an event
  whose area is not the store's, and nothing on an event whose changes do not contain
  the actual key \<^verbatim>\<open>storeId:key\<close>: it makes no call of the callback and raises no error,
  and that is all the host's delivery of such an event gets from it.
\<close>

theorem subscribe_filters_events:
  "store_subscribe st key cb w = (s, w') \<Longrightarrow>
   areaName \<noteq> area st \<or> \<not> obj_has (actualKey st key) changes \<Longrightarrow>
   run_listener sec s changes areaName = Inr [] \<and>
   (s, Inr []) \<in> set (fire sec w' changes areaName) \<and>
   (\<forall>r. (s, r) \<in> set (fire sec w' changes areaName) \<longrightarrow> r = Inr [])"
proof -
  assume a: "store_subscribe st key cb w = (s, w')"
    and b: "areaName \<noteq> area st \<or> \<not> obj_has (actualKey st key) changes"
  note h = subscribe_handle[OF a]
  from b have r: "run_listener sec s changes areaName = Inr []"
    using h by (simp add: sub_ignores actualKey_def)
  then show ?thesis using h by (auto simp: fire_def)
qed

theorem subscribe_filters_events_witness:
  "(\<exists>s w'. store_subscribe prefs_store ''theme'' 7 world0 = (s, w') \<and>
      Sync \<noteq> area prefs_store \<and>
      \<not> obj_has (actualKey prefs_store ''theme'')
           [(''prefs:volume'', \<lparr>oldValue = Some (Num 50), newValue = Some (Num 60)\<rparr>)] \<and>
      run_listener sealing s
        [(''prefs:theme'', \<lparr>oldValue = None, newValue = Some (Str ''dark'')\<rparr>)] Sync = Inr [] \<and>
      run_listener sealing s
        [(''prefs:volume'', \<lparr>oldValue = Some (Num 50), newValue = Some (Num 60)\<rparr>)] Local = Inr [] \<and>
      run_listener sealing s
        [(''prefs:theme'', \<lparr>oldValue = None, newValue = Some (Str ''dark'')\<rparr>)] Local
        = Inr [Callback 7 \<lparr>oldValue = None, newValue = Some (Str ''dark'')\<rparr>])"
proof -
  obtain s w' where sw: "store_subscribe prefs_store ''theme'' 7 world0 = (s, w')"
    by (cases "store_subscribe prefs_store ''theme'' 7 world0")
  have a: "Sync \<noteq> area prefs_store" by (simp add: prefs_store_def)
  have b: "\<not> obj_has (actualKey prefs_store ''theme'')
           [(''prefs:volume'', \<lparr>oldValue = Some (Num 50), newValue = Some (Num 60)\<rparr>)]"
    by (simp add: obj_has_def actualKey_def prefs_store_def)
  have c: "run_listener sealing s
        [(''prefs:theme'', \<lparr>oldValue = None, newValue = Some (Str ''dark'')\<rparr>)] Local
        = Inr [Callback 7 \<lparr>oldValue = None, newValue = Some (Str ''dark'')\<rparr>]"
    using subscribe_handle[OF sw] by (simp add: sub_def prefs_store_def)
  from subscribe_filters_events[OF sw, of Sync _ sealing] a
       subscribe_filters_events[OF sw, of Local _ sealing] b c sw
  show ?thesis by blast
qed

text \<open>
  C9. \<^verbatim>\<open>subscribe(key, callback)\<close> returns the closure it has just registered on
  \<^verbatim>\<open>chrome.storage.onChanged\<close>, which is not the caller's callback. \<^verbatim>\<open>unsubscribe\<close> of
  that handle removes it, and only it, from the listeners, so that no later event is
  delivered to it. \<^verbatim>\<open>unsubscribe\<close> of a function that is not registered, the caller's
  own callback among them, changes nothing; \<^verbatim>\<open>unsubscribe\<close> has no failing outcome.
\<close>

theorem subscribe_returns_listener:
  "store_subscribe st key cb w = (s, w') \<Longrightarrow>
     s = SubFn (closures w) (storeId st) key (area st) (isEncrypted st) cb \<and>
     s \<noteq> UserFn cb \<and>
     onChanged w' = onChanged w @ [s] \<and>
     set (onChanged (store_unsubscribe st s w')) = set (onChanged w') - {s} \<and>
     s \<notin> fst ` set (fire sec (store_unsubscribe st s w') changes areaName) \<and>
     (\<forall>h. h \<notin> set (onChanged w') \<longrightarrow> store_unsubscribe st h w' = w') \<and>
     (UserFn cb \<notin> set (onChanged w) \<longrightarrow> store_unsubscribe st (UserFn cb) w' = w')"
proof -
  assume a: "store_subscribe st key cb w = (s, w')"
  note h = subscribe_handle[OF a]
  have noop: "\<And>h. h \<notin> set (onChanged w') \<Longrightarrow> store_unsubscribe st h w' = w'"
    by (simp add: store_unsubscribe_def removeListener_def)
  have "UserFn cb \<notin> set (onChanged w) \<Longrightarrow> UserFn cb \<notin> set (onChanged w')"
    using h by auto
  with noop h show ?thesis
    by (auto simp: store_unsubscribe_def removeListener_def fire_def)
qed

theorem subscribe_returns_listener_witness:
  "\<exists>s w'. store_subscribe prefs_store ''theme'' 7 world0 = (s, w') \<and>
      onChanged w' = [s] \<and> s \<noteq> UserFn 7 \<and>
      onChanged (store_unsubscribe prefs_store s w') = [] \<and>
      UserFn 7 \<notin> set (onChanged world0) \<and>
      store_unsubscribe prefs_store (UserFn 7) w' = w'"
proof -
  obtain s w' where sw: "store_subscribe prefs_store ''theme'' 7 world0 = (s, w')"
    by (cases "store_subscribe prefs_store ''theme'' 7 world0")
  have e: "UserFn 7 \<notin> set (onChanged world0)" by (simp add: world0_def)
  from subscribe_returns_listener[OF sw, of sealing "[]" Local] e
  have "onChanged w' = [s]" and "s \<noteq> UserFn 7"
    and "set (onChanged (store_unsubscribe prefs_store s w')) = {}"
    and "store_unsubscribe prefs_store (UserFn 7) w' = w'"
    by (auto simp: world0_def)
  with sw e show ?thesis by auto
qed

text \<open>
  C2. One pass of \<^verbatim>\<open>initialize()\<close> issues no other write than a single batched
  \<^verbatim>\<open>set\<close> whose keys are exactly the store's actual keys that the host did not hold,
  and no \<^verbatim>\<open>remove\<close>; every value the host held before, whatever it is, is still there
  after. When the first pass has completed, a second pass, whatever its outcome, leaves
  the host storage as the first one left it.
\<close>

theorem initialize_idempotent:
  assumes first: "store_initialize sec st w = (r, st1, w1)"
    and second: "store_initialize sec st1 w1 = (r2, st2, w2)"
  shows "calls w1 = calls w @ issued w w1 \<and>
         (\<forall>c \<in> set (issued w w1). \<forall>a ob. c = HSet a ob \<longrightarrow>
            a = area st \<and>
            set (obj_keys ob) = {k \<in> set (actualKeys st). storage w (area st) k = None}) \<and>
         (\<forall>c \<in> set (issued w w1). \<forall>a ks. c \<noteq> HRemove a ks) \<and>
         (\<forall>a k. storage w a k \<noteq> None \<longrightarrow> storage w1 a k = storage w a k) \<and>
         (r = Inr () \<longrightarrow> storage w2 = storage w1)"
proof -
  have c: "calls w1 = calls w @ issued w w1"
    using initialize_calls[OF first] by (auto simp: issued_def)
  have s: "\<forall>c \<in> set (issued w w1). \<forall>a ob. c = HSet a ob \<longrightarrow>
            a = area st \<and>
            set (obj_keys ob) = {k \<in> set (actualKeys st). storage w (area st) k = None}"
    using initialize_calls[OF first] by (auto simp: issued_def dest: seeded_keys)
  have nr: "\<forall>c \<in> set (issued w w1). \<forall>a ks. c \<noteq> HRemove a ks"
    using initialize_calls[OF first] by (auto simp: issued_def)
  have p: "\<forall>a k. storage w a k \<noteq> None \<longrightarrow> storage w1 a k = storage w a k"
    using initialize_preserves[OF first] by blast
  have i: "r = Inr () \<longrightarrow> storage w2 = storage w1"
  proof
    assume ok: "r = Inr ()"
    with first have first': "store_initialize sec st w = (Inr (), st1, w1)" by simp
    from initialize_flag[OF first] ok have st1: "st1 = st\<lparr>hasInitialized := True\<rparr>" by simp
    from initialize_storage[OF second] show "storage w2 = storage w1"
    proof
      assume "storage w2 = storage w1"
      then show ?thesis .
    next
      assume "\<exists>ds. defaultsToSet sec st1 (absent_keys st1 w1) [] = Inr ds \<and>
           absent_keys st1 w1 \<noteq> [] \<and> r2 = Inr () \<and>
           storage w2 = (storage w1)(area st1 := write_obj ds (storage w1 (area st1)))"
      then obtain ds where ds: "defaultsToSet sec st (absent_keys st w1) [] = Inr ds"
        and s2: "storage w2 = (storage w1)(area st := write_obj ds (storage w1 (area st)))"
        by (auto simp: st1)
      from second_pass_writes_nothing[OF first' ds]
      have "write_obj ds (storage w1 (area st)) = storage w1 (area st)"
        by (rule write_obj_all_undefined)
      then show ?thesis by (simp add: s2)
    qed
  qed
  from c s nr p i show ?thesis by blast
qed


theorem initialize_idempotent_witness:
  "(case store_initialize sealing sealed_store world0 of (r, st1, w1) \<Rightarrow>
      (case store_initialize sealing st1 w1 of (r2, st2, w2) \<Rightarrow>
         r = Inr () \<and> r2 = Inr () \<and>
         issued world0 w1 =
           [HGet Local (Keys [''prefs:theme'', ''prefs:volume'']),
            HSet Local [(''prefs:theme'', Some (Sealed None)),
                        (''prefs:volume'', Some (Sealed None))]] \<and>
         issued w1 w2 = [HGet Local (Keys [''prefs:theme'', ''prefs:volume''])] \<and>
         storage w2 = storage w1))"
proof -
  obtain r st1 w1 where first: "store_initialize sealing sealed_store world0 = (r, st1, w1)"
    by (cases "store_initialize sealing sealed_store world0")
  obtain r2 st2 w2 where second: "store_initialize sealing st1 w1 = (r2, st2, w2)"
    by (cases "store_initialize sealing st1 w1")
  have r: "r = Inr ()"
    using first by (auto simp: run_defs example_defs)
  have i1: "issued world0 w1 =
           [HGet Local (Keys [''prefs:theme'', ''prefs:volume'']),
            HSet Local [(''prefs:theme'', Some (Sealed None)),
                        (''prefs:volume'', Some (Sealed None))]]"
    using first by (auto simp: run_defs example_defs issued_def)
  have r2: "r2 = Inr ()" and i2: "issued w1 w2 = [HGet Local (Keys [''prefs:theme'', ''prefs:volume''])]"
    using first second by (auto simp: run_defs example_defs issued_def)
  from initialize_idempotent[OF first second] r have "storage w2 = storage w1" by blast
  with r r2 i1 i2 show ?thesis by (simp add: first second)
qed

text \<open>
  C10. \<^verbatim>\<open>hasInitialized\<close> is true after \<^verbatim>\<open>initialize()\<close> exactly when it was true
  before or the pass has completed; the pass completes exactly when the host read is not
  rejected and, if any key is absent, the encryption of the values to seed succeeds and
  the batched write is not rejected. When the pass fails on a store not yet initialised,
  the flag is still false, \<^verbatim>\<open>get\<close>, \<^verbatim>\<open>set\<close> and \<^verbatim>\<open>all\<close> called in its place fail with
  the same error, and the next \<^verbatim>\<open>get\<close>, \<^verbatim>\<open>set\<close> or \<^verbatim>\<open>all\<close>, on whatever host state, starts
  again with the batched read of the seeding step.
\<close>

theorem flag_set_after_full_pass:
  assumes "store_initialize sec st w = (r, st', w')"
  shows "hasInitialized st' = (hasInitialized st \<or> r = Inr ()) \<and>
         ((r = Inr ()) =
            (\<not> rejected w \<and>
             (absent_keys st w \<noteq> [] \<longrightarrow>
                (\<exists>ds. defaultsToSet sec st (absent_keys st w) [] = Inr ds) \<and>
                \<not> rejected (issue (HGet (area st) (Keys (actualKeys st))) w)))) \<and>
         (\<forall>e. r = Inl e \<and> \<not> hasInitialized st \<longrightarrow>
            st' = st \<and>
            store_get sec st key w = (Inl e, st, w') \<and>
            store_set sec st karg val w = (Inl e, st, w') \<and>
            store_all sec st w = (Inl e, st, w') \<and>
            (\<forall>w2. take 1 (issued w2 (snd (snd (store_get sec st' key w2))))
                    = [HGet (area st) (Keys (actualKeys st))] \<and>
                  take 1 (issued w2 (snd (snd (store_set sec st' karg val w2))))
                    = [HGet (area st) (Keys (actualKeys st))] \<and>
                  take 1 (issued w2 (snd (snd (store_all sec st' w2))))
                    = [HGet (area st) (Keys (actualKeys st))]))"
proof -
  have f: "hasInitialized st' = (hasInitialized st \<or> r = Inr ())"
    using initialize_flag[OF assms] by auto
  note s = initialize_success[OF assms]
  have e: "\<forall>e. r = Inl e \<and> \<not> hasInitialized st \<longrightarrow>
            st' = st \<and>
            store_get sec st key w = (Inl e, st, w') \<and>
            store_set sec st karg val w = (Inl e, st, w') \<and>
            store_all sec st w = (Inl e, st, w') \<and>
            (\<forall>w2. take 1 (issued w2 (snd (snd (store_get sec st' key w2))))
                    = [HGet (area st) (Keys (actualKeys st))] \<and>
                  take 1 (issued w2 (snd (snd (store_set sec st' karg val w2))))
                    = [HGet (area st) (Keys (actualKeys st))] \<and>
                  take 1 (issued w2 (snd (snd (store_all sec st' w2))))
                    = [HGet (area st) (Keys (actualKeys st))])"
  proof (intro allI impI)
    fix e assume a: "r = Inl e \<and> \<not> hasInitialized st"
    then have st: "st' = st" using initialize_flag[OF assms] by simp
    from a assms st have i: "ensure_initialized sec st w = (Inl e, st, w')" by simp
    have g: "store_get sec st key w = (Inl e, st, w')" by (simp add: store_get_def i)
    have t: "store_set sec st karg val w = (Inl e, st, w')" by (simp add: store_set_def i)
    have l: "store_all sec st w = (Inl e, st, w')" by (simp add: store_all_def i)
    have re: "\<forall>w2. take 1 (issued w2 (snd (snd (store_get sec st key w2))))
                    = [HGet (area st) (Keys (actualKeys st))] \<and>
                  take 1 (issued w2 (snd (snd (store_set sec st karg val w2))))
                    = [HGet (area st) (Keys (actualKeys st))] \<and>
                  take 1 (issued w2 (snd (snd (store_all sec st w2))))
                    = [HGet (area st) (Keys (actualKeys st))]"
      using a first_call_get[of st] first_call_set[of st] first_call_all[of st] by blast
    from st g t l re show "st' = st \<and>
            store_get sec st key w = (Inl e, st, w') \<and>
            store_set sec st karg val w = (Inl e, st, w') \<and>
            store_all sec st w = (Inl e, st, w') \<and>
            (\<forall>w2. take 1 (issued w2 (snd (snd (store_get sec st' key w2))))
                    = [HGet (area st) (Keys (actualKeys st))] \<and>
                  take 1 (issued w2 (snd (snd (store_set sec st' karg val w2))))
                    = [HGet (area st) (Keys (actualKeys st))] \<and>
                  take 1 (issued w2 (snd (snd (store_all sec st' w2))))
                    = [HGet (area st) (Keys (actualKeys st))])"
      by blast
  qed
  from f s e show ?thesis by blast
qed

theorem flag_set_after_full_pass_witness:
  "(case store_initialize sealing sealed_store (world0\<lparr>faults := [False, True]\<rparr>) of
      (r, st', w') \<Rightarrow>
        r = Inl HostError \<and> \<not> hasInitialized st' \<and>
        store_get sealing sealed_store ''theme'' (world0\<lparr>faults := [False, True]\<rparr>)
          = (Inl HostError, sealed_store, w') \<and>
        take 1 (issued w' (snd (snd (store_get sealing st' ''theme'' w'))))
          = [HGet Local (Keys [''prefs:theme'', ''prefs:volume''])] \<and>
        hasInitialized (fst (snd (store_get sealing st' ''theme'' w'))))"
proof -
  let ?w = "world0\<lparr>faults := [False, True]\<rparr>"
  obtain r st' w' where i: "store_initialize sealing sealed_store ?w = (r, st', w')"
    by (cases "store_initialize sealing sealed_store ?w")
  have r: "r = Inl HostError" and n: "\<not> hasInitialized sealed_store"
    using i by (auto simp: run_defs example_defs Let_def)
  have k: "actualKeys sealed_store = [''prefs:theme'', ''prefs:volume'']"
    and a: "area sealed_store = Local"
    by (simp_all add: run_defs example_defs)
  have h: "hasInitialized (fst (snd (store_get sealing st' ''theme'' w')))"
    using i by (auto simp: run_defs example_defs Let_def)
  note T = flag_set_after_full_pass[OF i, of "''theme''" "KStr ''theme''" None]
  from T r n have st: "st' = sealed_store" by blast
  from T r n have g: "store_get sealing sealed_store ''theme'' ?w = (Inl HostError, sealed_store, w')"
    by blast
  from T r n have re: "take 1 (issued w' (snd (snd (store_get sealing st' ''theme'' w'))))
          = [HGet (area sealed_store) (Keys (actualKeys sealed_store))]"
    by blast
  from r n st g re h show ?thesis by (simp add: i k a)
qed

text \<open>
  C7, as stated for every call. The code builds the actual key from whatever key it is
  handed and checks nothing: the bulk form \<^verbatim>\<open>set({extra: 1})\<close> writes
  \<^verbatim>\<open>prefs:extra\<close>, and \<^verbatim>\<open>get("extra")\<close> reads it, though \<^verbatim>\<open>extra\<close> is no key of the
  store \<^verbatim>\<open>prefs\<close>.
\<close>

theorem undeclared_key_leaves_namespace:
  "issued world_seeded (snd (snd (store_set sealing prefs_store
        (KObj [(''extra'', Some (Num 1))]) None world_seeded)))
     = [HGet Local (Keys [''prefs:theme'', ''prefs:volume'']),
        HSet Local [(''prefs:extra'', Some (Num 1))]] \<and>
   \<not> own_call prefs_store (HSet Local [(''prefs:extra'', Some (Num 1))]) \<and>
   issued world_seeded (snd (snd (store_get sealing prefs_store ''extra'' world_seeded)))
     = [HGet Local (Keys [''prefs:theme'', ''prefs:volume'']),
        HGet Local (Key ''prefs:extra'')] \<and>
   \<not> own_call prefs_store (HGet Local (Key ''prefs:extra''))"
  by (simp add: run_defs example_defs issued_def own_call_def Let_def)

text \<open>
  C7, for the keys declared at construction. Every host call that \<^verbatim>\<open>initialize\<close> and
  \<^verbatim>\<open>all\<close> issue, and every host call that \<^verbatim>\<open>get\<close> and \<^verbatim>\<open>set\<close> (both forms) issue
  when the keys passed in are declared keys, addresses the store's own area, and every
  key it reads, writes or removes is \<^verbatim>\<open>storeId + ":" + key\<close> for a key declared at
  construction.
\<close>

theorem calls_stay_in_namespace:
  "(calls (snd (snd (store_initialize sec st w)))
      = calls w @ issued w (snd (snd (store_initialize sec st w))) \<and>
    (\<forall>c \<in> set (issued w (snd (snd (store_initialize sec st w)))). own_call st c)) \<and>
   (calls (snd (snd (store_get sec st key w)))
      = calls w @ issued w (snd (snd (store_get sec st key w))) \<and>
    (key \<in> set (keys st) \<longrightarrow>
       (\<forall>c \<in> set (issued w (snd (snd (store_get sec st key w)))). own_call st c))) \<and>
   (calls (snd (snd (store_set sec st karg val w)))
      = calls w @ issued w (snd (snd (store_set sec st karg val w))) \<and>
    (typed_set_args st karg val \<longrightarrow>
       (\<forall>c \<in> set (issued w (snd (snd (store_set sec st karg val w)))). own_call st c))) \<and>
   (calls (snd (snd (store_all sec st w)))
      = calls w @ issued w (snd (snd (store_all sec st w))) \<and>
    (\<forall>c \<in> set (issued w (snd (snd (store_all sec st w)))). own_call st c))"
proof -
  obtain r1 s1 w1 where i: "store_initialize sec st w = (r1, s1, w1)"
    by (cases "store_initialize sec st w")
  obtain r2 s2 w2 where g: "store_get sec st key w = (r2, s2, w2)"
    by (cases "store_get sec st key w")
  obtain r3 s3 w3 where t: "store_set sec st karg val w = (r3, s3, w3)"
    by (cases "store_set sec st karg val w")
  obtain r4 s4 w4 where l: "store_all sec st w = (r4, s4, w4)"
    by (cases "store_all sec st w")
  from initialize_trace[OF i] have 1: "calls w1 = calls w @ issued w w1"
    "\<forall>c \<in> set (issued w w1). own_call st c"
    by (auto dest: issued_append)
  from store_get_trace[OF g] have 2: "calls w2 = calls w @ issued w w2"
    "key \<in> set (keys st) \<longrightarrow> (\<forall>c \<in> set (issued w w2). own_call st c)"
    by (auto dest: issued_append)
  from store_set_trace[OF t] have 3: "calls w3 = calls w @ issued w w3"
    "typed_set_args st karg val \<longrightarrow> (\<forall>c \<in> set (issued w w3). own_call st c)"
    by (auto dest: issued_append)
  from store_all_trace[OF l] have 4: "calls w4 = calls w @ issued w w4"
    "\<forall>c \<in> set (issued w w4). own_call st c"
    by (auto dest: issued_append)
  from 1 2 3 4 show ?thesis by (simp add: i g t l)
qed

theorem calls_stay_in_namespace_witness:
  "''theme'' \<in> set (keys prefs_store) \<and>
   typed_set_args prefs_store (KObj [(''theme'', Some (Str ''dark'')), (''volume'', None)]) None \<and>
   issued world0 (snd (snd (store_set sealing prefs_store
        (KObj [(''theme'', Some (Str ''dark'')), (''volume'', None)]) None world0)))
     = [HGet Local (Keys [''prefs:theme'', ''prefs:volume'']),
        HSet Local [(''prefs:theme'', None), (''prefs:volume'', None)],
        HRemove Local (Keys [''prefs:volume'']),
        HSet Local [(''prefs:theme'', Some (Str ''dark''))]] \<and>
   list_all (own_call prefs_store)
     (issued world0 (snd (snd (store_set sealing prefs_store
        (KObj [(''theme'', Some (Str ''dark'')), (''volume'', None)]) None world0)))) \<and>
   list_all (own_call prefs_store)
     (issued world0 (snd (snd (store_get sealing prefs_store ''theme'' world0))))"
proof -
  let ?m = "KObj [(''theme'', Some (Str ''dark'')), (''volume'', None)]"
  have k: "''theme'' \<in> set (keys prefs_store)" and t: "typed_set_args prefs_store ?m None"
    by (simp_all add: run_defs example_defs)
  have i: "issued world0 (snd (snd (store_set sealing prefs_store ?m None world0)))
     = [HGet Local (Keys [''prefs:theme'', ''prefs:volume'']),
        HSet Local [(''prefs:theme'', None), (''prefs:volume'', None)],
        HRemove Local (Keys [''prefs:volume'']),
        HSet Local [(''prefs:theme'', Some (Str ''dark''))]]"
    by (simp add: run_defs example_defs issued_def)
  from calls_stay_in_namespace[of sealing prefs_store world0 "''theme''" ?m None] k t i
  show ?thesis unfolding list_all_iff by blast
qed

text \<open>
  C3. Once the guard that opens \<^verbatim>\<open>set\<close> has seen the store initialised,
  \<^verbatim>\<open>set(k, undefined)\<close> issues one host call, the \<^verbatim>\<open>remove\<close> of the actual key
  \<^verbatim>\<open>storeId:k\<close>, and no write. If the host accepts it, the key is gone from the store's
  area and nothing else has changed; the \<^verbatim>\<open>get(k)\<close> that follows issues the single read
  of that key, seeds nothing, and returns \<^verbatim>\<open>undefined\<close> (for an encrypted store: what
  \<^verbatim>\<open>decrypt\<close> makes of \<^verbatim>\<open>undefined\<close>, which its contract says is \<^verbatim>\<open>undefined\<close>).
\<close>

theorem sentinel_set_removes:
  assumes e: "ensure_initialized sec st w = (Inr (), st1, w1)"
  shows "\<exists>r w2. store_set sec st (KStr k) None w = (r, st1, w2) \<and>
           hasInitialized st1 \<and>
           calls w2 = calls w1 @ [HRemove (area st) (Key (actualKey st k))] \<and>
           (\<not> rejected w1 \<longrightarrow>
              r = Inr () \<and>
              storage w2 = (storage w1)(area st := (storage w1 (area st))(actualKey st k := None)) \<and>
              (\<exists>r3 w3. store_get sec st1 k w2 = (r3, st1, w3) \<and>
                 calls w3 = calls w2 @ [HGet (area st) (Key (actualKey st k))] \<and>
                 storage w3 = storage w2 \<and>
                 (\<not> rejected w2 \<and> (isEncrypted st \<longrightarrow> decrypt sec None = Inr None)
                    \<longrightarrow> r3 = Inr None)))"
proof -
  obtain r st' w2 where s: "store_set sec st (KStr k) None w = (r, st', w2)"
    by (cases "store_set sec st (KStr k) None w")
  from ensure_initialized_flag[OF e] have h: "hasInitialized st1"
    and st1: "st1 = st \<or> st1 = st\<lparr>hasInitialized := True\<rparr>" by auto
  from st1 have same: "area st1 = area st" "actualKey st1 = actualKey st"
    "decrypt_if sec st1 = decrypt_if sec st" by auto
  from s have single: "st' = st1 \<and> set_single sec st k None w1 = (r, w2)"
    using e by (cases rule: store_set_cases) auto
  then have ss: "set_single sec st k None w1 = (r, w2)" and st': "st' = st1" by auto
  from ss have c: "calls w2 = calls w1 @ [HRemove (area st) (Key (actualKey st k))]"
    and rr: "r = (if rejected w1 then Inl HostError else Inr ())"
    and sto: "storage w2 = (if rejected w1 then storage w1
                     else (storage w1)(area st := (storage w1 (area st))(actualKey st k := None)))"
    by (cases rule: set_single_cases; simp)+
  obtain r3 st3 w3 where g: "store_get sec st1 k w2 = (r3, st3, w3)"
    by (cases "store_get sec st1 k w2")
  from g h have g1: "st3 = st1"
    "calls w3 = calls w2 @ [HGet (area st1) (Key (actualKey st1 k))]"
    "storage w3 = storage w2"
    "r3 = (if rejected w2 then Inl HostError
           else decrypt_if sec st1 (storage w2 (area st1) (actualKey st1 k)))"
    by (cases rule: store_get_cases; simp)+
  then have g': "st3 = st1 \<and> calls w3 = calls w2 @ [HGet (area st) (Key (actualKey st k))] \<and>
      storage w3 = storage w2 \<and>
      r3 = (if rejected w2 then Inl HostError
            else decrypt_if sec st (storage w2 (area st) (actualKey st k)))"
    by (simp only: same)
  have "\<not> rejected w1 \<Longrightarrow> \<not> rejected w2 \<Longrightarrow> isEncrypted st \<longrightarrow> decrypt sec None = Inr None
          \<Longrightarrow> r3 = Inr None"
    using g' sto by (auto simp: decrypt_if_def)
  with s st' h c rr sto g g' show ?thesis by auto
qed

theorem sentinel_set_removes_witness:
  "(case ensure_initialized sealing prefs_store world_seeded of (ri, st1, w1) \<Rightarrow>
     ri = Inr () \<and> \<not> rejected w1 \<and>
     (case store_set sealing prefs_store (KStr ''theme'') None world_seeded of (r, st2, w2) \<Rightarrow>
        r = Inr () \<and> st2 = st1 \<and>
        issued w1 w2 = [HRemove Local (Key ''prefs:theme'')] \<and>
        storage w2 Local ''prefs:theme'' = None \<and>
        storage w2 Local ''prefs:volume'' = Some (Num 50) \<and>
        \<not> rejected w2 \<and>
        fst (store_get sealing st1 ''theme'' w2) = Inr None))"
proof -
  obtain ri st1 w1 where e: "ensure_initialized sealing prefs_store world_seeded = (ri, st1, w1)"
    by (cases "ensure_initialized sealing prefs_store world_seeded")
  have ri: "ri = Inr ()" and n1: "\<not> rejected w1"
    and v: "storage w1 Local ''prefs:volume'' = Some (Num 50)"
    using e by (auto simp: run_defs example_defs Let_def)
  have a: "area prefs_store = Local" "actualKey prefs_store ''theme'' = ''prefs:theme''"
    "\<not> isEncrypted prefs_store"
    by (simp_all add: run_defs example_defs)
  from e ri have e': "ensure_initialized sealing prefs_store world_seeded = (Inr (), st1, w1)"
    by simp
  from sentinel_set_removes[OF e', of "''theme''"] n1 obtain r w2 r3 w3
    where s: "store_set sealing prefs_store (KStr ''theme'') None world_seeded = (r, st1, w2)"
      and c: "calls w2 = calls w1 @ [HRemove (area prefs_store) (Key (actualKey prefs_store ''theme''))]"
      and r: "r = Inr ()"
      and sto: "storage w2 = (storage w1)(area prefs_store :=
                  (storage w1 (area prefs_store))(actualKey prefs_store ''theme'' := None))"
      and g: "store_get sealing st1 ''theme'' w2 = (r3, st1, w3)"
      and r3: "\<not> rejected w2 \<and> (isEncrypted prefs_store \<longrightarrow> decrypt sealing None = Inr None)
                 \<longrightarrow> r3 = Inr None"
    by blast
  have n2: "\<not> rejected w2"
    using s e by (auto simp: run_defs example_defs Let_def)
  from r3 n2 a have "r3 = Inr None" by simp
  with e ri n1 s c r sto g n2 v a show ?thesis by (simp add: issued_def)
qed

text \<open>
  C8. For an encrypted store whose collaborator decrypts every ciphertext it produces
  back to the value encrypted, on a host that rejects no call: \<^verbatim>\<open>set(k, v)\<close> with a
  value \<open>v\<close> other than \<^verbatim>\<open>undefined\<close> succeeds, and the \<^verbatim>\<open>get(k)\<close> that follows
  succeeds and returns \<open>v\<close>.
\<close>

theorem encrypted_round_trip:
  assumes enc: "isEncrypted st"
    and rt: "\<forall>v. \<exists>c. encrypt sec v = Inr c \<and> decrypt sec (Some c) = Inr v"
    and ff: "fault_free w"
  shows "\<exists>st1 w1 w2. store_set sec st (KStr k) (Some v) w = (Inr (), st1, w1) \<and>
                      store_get sec st1 k w1 = (Inr (Some v), st1, w2)"
proof -
  from rt obtain c where c: "encrypt sec (Some v) = Inr c" "decrypt sec (Some c) = Inr (Some v)"
    by blast
  have tot: "\<forall>v. \<exists>c. encrypt_if sec st v = Inr c"
  proof
    fix u
    from rt obtain cu where "encrypt sec u = Inr cu" by blast
    then show "\<exists>c. encrypt_if sec st u = Inr c" using enc by (simp add: encrypt_if_def)
  qed
  from ensure_initialized_total[OF ff tot] obtain sti wi
    where e: "ensure_initialized sec st w = (Inr (), sti, wi)" and ffi: "fault_free wi" by blast
  from ensure_initialized_flag[OF e] have h: "hasInitialized sti"
    and sti: "sti = st \<or> sti = st\<lparr>hasInitialized := True\<rparr>" by auto
  from sti have same: "area sti = area st" "actualKey sti = actualKey st"
    "decrypt_if sec sti = decrypt_if sec st" by auto
  obtain r st1 w1 where s: "store_set sec st (KStr k) (Some v) w = (r, st1, w1)"
    by (cases "store_set sec st (KStr k) (Some v) w")
  from s have single: "st1 = sti \<and> set_single sec st k (Some v) wi = (r, w1)"
    using e by (cases rule: store_set_cases) auto
  then have ss: "set_single sec st k (Some v) wi = (r, w1)" and st1: "st1 = sti" by auto
  have ei: "encrypt_if sec st (Some v) = Inr (Some c)"
    using enc c by (simp add: encrypt_if_def)
  note nri = fault_free_not_rejected[OF ffi]
  from ss have "r = Inr () \<and>
      storage w1 = (storage wi)(area st := (storage wi (area st))(actualKey st k \<mapsto> c)) \<and>
      faults w1 = drop 1 (faults wi)"
  proof (cases rule: set_single_cases)
    case removed
    then show ?thesis by simp
  next
    case (encrypt_failed x e)
    with ei show ?thesis by simp
  next
    case (written x c')
    with ei have "c' = c" by simp
    with written nri show ?thesis by simp
  qed
  then have r: "r = Inr ()"
    and sto: "storage w1 = (storage wi)(area st := (storage wi (area st))(actualKey st k \<mapsto> c))"
    and f1: "faults w1 = drop 1 (faults wi)"
    by blast+
  from fault_free_faults[OF f1 ffi] have n1: "\<not> rejected w1" by (rule fault_free_not_rejected)
  obtain r3 st3 w3 where g: "store_get sec sti k w1 = (r3, st3, w3)"
    by (cases "store_get sec sti k w1")
  from g have g1: "st3 = sti \<and>
    r3 = (if rejected w1 then Inl HostError
          else decrypt_if sec sti (storage w1 (area sti) (actualKey sti k)))"
  proof (cases rule: store_get_cases)
    case (init_failed e)
    with h show ?thesis by simp
  next
    case (ran wj)
    with h show ?thesis by simp
  qed
  then have "r3 = decrypt_if sec st (storage w1 (area st) (actualKey st k))"
    using n1 by (simp only: same if_False)
  moreover have "storage w1 (area st) (actualKey st k) = Some c"
    by (simp add: sto)
  ultimately have "r3 = Inr (Some v)" using enc c by (simp add: decrypt_if_def)
  with g g1 have "store_get sec sti k w1 = (Inr (Some v), sti, w3)" by simp
  moreover from s r st1 have "store_set sec st (KStr k) (Some v) w = (Inr (), sti, w1)" by simp
  ultimately show ?thesis by blast
qed

theorem encrypted_round_trip_witness:
  "isEncrypted sealed_store \<and>
   (\<forall>v. \<exists>c. encrypt sealing v = Inr c \<and> decrypt sealing (Some c) = Inr v) \<and>
   fault_free world0 \<and>
   (\<exists>st1 w1 w2.
      store_set sealing sealed_store (KStr ''theme'') (Some (Str ''dark'')) world0
        = (Inr (), st1, w1) \<and>
      store_get sealing st1 ''theme'' w1 = (Inr (Some (Str ''dark'')), st1, w2))"
proof -
  have a: "isEncrypted sealed_store" by (simp add: sealed_store_def)
  have b: "\<forall>v. \<exists>c. encrypt sealing v = Inr c \<and> decrypt sealing (Some c) = Inr v"
    by (simp add: sealing_def)
  have c: "fault_free world0" by (simp add: fault_free_def world0_def)
  from encrypted_round_trip[OF a b c, of "''theme''" "Str ''dark''"] a b c
  show ?thesis by blast
qed



end
